theory Spec2Isabelle
  imports Complex_Main "HOL-Library.List_Lexorder" "HOL-Library.Char_ord"
begin

section \<open>Data model\<close>

text \<open>
  A dataset row as the tallies read it: \<open>TMovie\<close> with its list of genre labels and its
  year. \<open>Scroll.svelte\<close> reads the year through \<open>m.year.getFullYear()\<close>; the field here is
  that number. A row whose date is invalid has the year \<open>NaN\<close>, which no comparison of the
  aggregation functions accepts and which \<open>Scroll.svelte\<close> filters out of its year
  grouping; such rows are not records of this type. The heat map reads the genres only.
  \<open>RankedLine.svelte\<close> reads \<open>d.year\<close> itself and does not filter; its records have a
  type of their own, \<open>LineMovie\<close> below.
  The other columns (title, rating, votes, runtime) are read by none of the functions below.
\<close>

record TMovie =
  year :: int
  genres :: "string list"

text \<open>\<open>type Datum = { genre: string; count: number }\<close> of \<open>RankBar.svelte\<close>; the
  aggregation functions of \<open>Scroll.svelte\<close> build the same objects.\<close>

record Datum =
  genre :: string
  count :: nat

section \<open>The d3 primitives the aggregations use\<close>

text \<open>
  \<open>d3.group(values, key)\<close> walks the values in order and keeps an insertion-ordered map
  from key to the array of values with that key: a value whose key is already present is
  pushed on that key's array, any other key gets a new entry at the end.
\<close>

fun group_push :: "('k \<times> 'v list) list \<Rightarrow> 'k \<Rightarrow> 'v \<Rightarrow> ('k \<times> 'v list) list" where
  "group_push [] k v = [(k, [v])]"
| "group_push ((k', vs) # gs) k v =
     (if k' = k then (k', vs @ [v]) # gs else (k', vs) # group_push gs k v)"

definition d3_group :: "'v list \<Rightarrow> ('v \<Rightarrow> 'k) \<Rightarrow> ('k \<times> 'v list) list" where
  "d3_group values key = foldl (\<lambda>gs v. group_push gs (key v) v) [] values"

text \<open>\<open>d3.rollup(values, reduce, key)\<close> groups the same way and replaces every group by
  \<open>reduce(group)\<close>.\<close>

definition d3_rollup :: "'v list \<Rightarrow> ('v list \<Rightarrow> 'r) \<Rightarrow> ('v \<Rightarrow> 'k) \<Rightarrow> ('k \<times> 'r) list" where
  "d3_rollup values reduce key = map (\<lambda>(k, vs). (k, reduce vs)) (d3_group values key)"

text \<open>
  \<open>arr.sort((a, b) => b.count - a.count)\<close>: \<open>Array.prototype.sort\<close> is a stable sort, here
  by descending count. Insertion sort on the key \<open>- count\<close> is stable as well, and a
  stable sort has one result only.
\<close>

definition sort_by_count_desc :: "Datum list \<Rightarrow> Datum list" where
  "sort_by_count_desc arr = sort_key (\<lambda>d. - int (count d)) arr"

section \<open>Scroll.svelte: the two tallies\<close>

text \<open>\<open>Array.from(map, ([g, c]) => ({ genre: g, count: c }))\<close>\<close>

definition to_datum :: "string \<times> nat \<Rightarrow> Datum" where
  "to_datum gc = \<lparr>genre = fst gc, count = snd gc\<rparr>"

text \<open>\<open>d3.rollup(labels, v => v.length, d => d)\<close> followed by the conversion and the sort:
  the part the two tallies (and the ranked-line chart) share.\<close>

definition tally :: "string list \<Rightarrow> Datum list" where
  "tally labels = sort_by_count_desc (map to_datum (d3_rollup labels length (\<lambda>d. d)))"

definition aggregateYear :: "TMovie list \<Rightarrow> int \<Rightarrow> Datum list" where
  "aggregateYear movies y =
     (if movies = [] \<or> y = 0 then []
      else tally (concat (map genres (filter (\<lambda>m. year m = y) movies))))"

definition aggregateYearRange :: "TMovie list \<Rightarrow> int \<Rightarrow> Datum list" where
  "aggregateYearRange movies endYear =
     (if movies = [] \<or> endYear = 0 then []
      else let startYear = endYear - 10
           in tally (concat (map genres
                (filter (\<lambda>m. year m \<ge> startYear \<and> year m \<le> endYear) movies))))"

text \<open>The reference the tallies are compared with. The labels of a year: the records
  filtered to that year, their labels flattened.\<close>

definition year_labels :: "TMovie list \<Rightarrow> int \<Rightarrow> string list" where
  "year_labels movies y = concat (map genres (filter (\<lambda>m. year m = y) movies))"

text \<open>A sequence of entries is a tally of a label list when it has one entry per distinct
  label, every entry carries the number of occurrences of its label, and the counts never
  increase along the sequence.\<close>

definition reference_tally :: "string list \<Rightarrow> Datum list \<Rightarrow> bool" where
  "reference_tally labels t \<longleftrightarrow>
     distinct (map genre t) \<and> genre ` set t = set labels \<and>
     (\<forall>d \<in> set t. count d = count_list labels (genre d)) \<and>
     sorted_wrt (\<lambda>a b. count b \<le> count a) t"

text \<open>The record sets of the examples.\<close>

definition movies_2000 :: "TMovie list" where
  "movies_2000 = [\<lparr>year = 2000, genres = [''Action'', ''Comedy'']\<rparr>,
                  \<lparr>year = 2000, genres = [''Action'']\<rparr>]"

definition movies_year0 :: "TMovie list" where
  "movies_year0 = [\<lparr>year = 0, genres = [''Action'']\<rparr>,
                   \<lparr>year = 5, genres = [''Comedy'']\<rparr>]"

definition movies_decade :: "TMovie list" where
  "movies_decade = [\<lparr>year = 1995, genres = [''Action'', ''Drama'']\<rparr>,
                    \<lparr>year = 2000, genres = [''Action'']\<rparr>,
                    \<lparr>year = 1980, genres = [''Comedy'']\<rparr>]"

section \<open>Scroll.svelte: the scroll-position tracker\<close>

text \<open>
  What \<open>findVisibleYear\<close> reads of a \<open>.step\<close> element: the \<open>top\<close> and \<open>height\<close> of its
  bounding rectangle, and the number \<open>parseInt(yearHeader.textContent || '0')\<close> of its
  \<open>.year\<close> header; \<open>None\<close> when the step has no such header or the text parses to
  \<open>NaN\<close> (in both cases the function leaves the current year alone). Pixel coordinates
  are numbers of the real line.
\<close>

record Step =
  rect_top :: real
  rect_height :: real
  header_year :: "int option"

text \<open>
  The body of \<open>steps.forEach\<close>. The pair is \<open>(closestStep, closestDistance)\<close>; the
  distance \<open>None\<close> is the initial \<open>Infinity\<close>, which every distance is below.
\<close>

definition visit :: "real \<Rightarrow> Step option \<times> real option \<Rightarrow> Step \<Rightarrow> Step option \<times> real option" where
  "visit viewportMiddle acc step =
     (let stepMiddle = rect_top step + rect_height step / 2;
          distance = \<bar>stepMiddle - viewportMiddle\<bar>
      in if (case snd acc of None \<Rightarrow> True | Some closestDistance \<Rightarrow> distance < closestDistance)
         then (Some step, Some distance)
         else acc)"

definition closest_step :: "Step list \<Rightarrow> real \<Rightarrow> Step option" where
  "closest_step steps viewportMiddle = fst (foldl (visit viewportMiddle) (None, None) steps)"

text \<open>\<open>findVisibleYear\<close>, as a function from the steps in document order, \<open>window.innerHeight\<close>
  and the current year to the current year it leaves.\<close>

definition findVisibleYear :: "Step list \<Rightarrow> real \<Rightarrow> int \<Rightarrow> int" where
  "findVisibleYear steps innerHeight currentYear =
     (if steps = [] then currentYear
      else let viewportMiddle = innerHeight / 2
           in case closest_step steps viewportMiddle of
                None \<Rightarrow> currentYear
              | Some step \<Rightarrow>
                  (case header_year step of
                     None \<Rightarrow> currentYear
                   | Some newYear \<Rightarrow> if newYear \<noteq> currentYear then newYear else currentYear))"

text \<open>The distance that is compared: from the vertical midpoint of a step to the
  vertical midpoint of the viewport.\<close>

definition midpoint_distance :: "real \<Rightarrow> Step \<Rightarrow> real" where
  "midpoint_distance innerHeight step = \<bar>(rect_top step + rect_height step / 2) - innerHeight / 2\<bar>"

definition steps_example :: "Step list" where
  "steps_example = [\<lparr>rect_top = -400, rect_height = 300, header_year = Some 1990\<rparr>,
                    \<lparr>rect_top = 200, rect_height = 300, header_year = Some 2000\<rparr>,
                    \<lparr>rect_top = 500, rect_height = 300, header_year = Some 2010\<rparr>]"

section \<open>The 3D bar scene: horizontal scrolling\<close>

text \<open>\<open>type TMovieData = { [key: string]: number }\<close>: the own properties of the object, in
  the order \<open>Object.keys\<close> lists them.\<close>

type_synonym TMovieData = "(string \<times> nat) list"

text \<open>The scrolling variables of the component. Pointer coordinates are numbers of the
  real line.\<close>

record Scene =
  scrollOffset :: real
  maxScroll :: real
  isDragging :: bool
  previousMouseX :: real

definition init_scene :: Scene where
  "init_scene = \<lparr>scrollOffset = 0, maxScroll = 0, isDragging = False, previousMouseX = 0\<rparr>"

text \<open>The events the listeners of \<open>init\<close> are registered for: \<open>mousedown\<close> and \<open>mousemove\<close>
  carry \<open>clientX\<close>, \<open>keydown\<close> carries the key name.\<close>

datatype Event = MouseDown real | MouseMove real | MouseUp | MouseLeave | KeyDown string

fun handle :: "Scene \<Rightarrow> Event \<Rightarrow> Scene" where
  "handle s (MouseDown clientX) = s\<lparr>isDragging := True, previousMouseX := clientX\<rparr>"
| "handle s (MouseMove clientX) =
     (if isDragging s then
        let deltaX = clientX - previousMouseX s;
            s1 = s\<lparr>scrollOffset := scrollOffset s - deltaX * 5\<rparr>;
            s2 = s1\<lparr>scrollOffset := max 0 (min (scrollOffset s1) (maxScroll s1))\<rparr>
        in s2\<lparr>previousMouseX := clientX\<rparr>
      else s)"
| "handle s MouseUp = s\<lparr>isDragging := False\<rparr>"
| "handle s MouseLeave = s\<lparr>isDragging := False\<rparr>"
| "handle s (KeyDown key) =
     (if key = ''ArrowLeft'' then
        let s1 = s\<lparr>scrollOffset := scrollOffset s - 150\<rparr>
        in s1\<lparr>scrollOffset := max 0 (scrollOffset s1)\<rparr>
      else if key = ''ArrowRight'' then
        let s1 = s\<lparr>scrollOffset := scrollOffset s + 150\<rparr>
        in s1\<lparr>scrollOffset := min (scrollOffset s1) (maxScroll s1)\<rparr>
      else s)"

text \<open>What \<open>createBars\<close> does to the scrolling variables: it sets \<open>maxScroll\<close>. It runs
  once, when the font has loaded; the listeners are registered before that.\<close>

definition createBars :: "TMovieData \<Rightarrow> Scene \<Rightarrow> Scene" where
  "createBars movieData s =
     (let barSpacing = 150;
          sortedGenres = map fst (sort_key (\<lambda>gc. - int (snd gc)) movieData);
          totalWidth = real (length sortedGenres) * barSpacing;
          viewportWidth = 1200
      in s\<lparr>maxScroll := totalWidth - viewportWidth\<rparr>)"

text \<open>The fallback distribution of \<open>loadSummerMoviesData\<close>, used when the dataset cannot
  be loaded.\<close>

definition sample_data :: TMovieData where
  "sample_data = [(''Action'', 25), (''Comedy'', 18), (''Drama'', 15), (''Horror'', 12),
                  (''Sci-Fi'', 20), (''Animation'', 10)]"

definition eight_genres :: TMovieData where
  "eight_genres = [(''Action'', 25), (''Comedy'', 18), (''Drama'', 15), (''Horror'', 12),
                   (''Sci-Fi'', 20), (''Animation'', 10), (''Romance'', 9), (''Family'', 7),
                   (''Crime'', 3)]"

text \<open>The invariant: the offset lies within the content's extent.\<close>

definition in_extent :: "Scene \<Rightarrow> bool" where
  "in_extent s \<longleftrightarrow> 0 \<le> scrollOffset s \<and> scrollOffset s \<le> maxScroll s"

section \<open>GenreHeatmap.svelte: the co-occurrence matrix\<close>

text \<open>
  \<open>new Set<string>()\<close> filled by \<open>movies.forEach(m => m.genres.forEach(g => allGenres.add(g)))\<close>
  and read by \<open>Array.from\<close>: a set lists its elements in insertion order, and adding an
  element it has changes nothing.
\<close>

definition set_add :: "'a list \<Rightarrow> 'a \<Rightarrow> 'a list" where
  "set_add s x = (if x \<in> set s then s else s @ [x])"

definition allGenres :: "TMovie list \<Rightarrow> string list" where
  "allGenres movies = foldl (\<lambda>s m. foldl set_add s (genres m)) [] movies"

text \<open>The heat map's \<open>genres\<close>: \<open>Array.from(allGenres).sort()\<close>, in the order of strings.\<close>

definition heatmap_genres :: "TMovie list \<Rightarrow> string list" where
  "heatmap_genres movies = sort (allGenres movies)"

text \<open>
  The values that a property of the objects of \<open>coMatrix\<close> can read as: \<open>undefined\<close>; a
  count; \<open>NaN\<close>; a string made by \<open>+ 1\<close> from a function or from an object, that is the
  source text of the built-in function \<open>Object.prototype[f]\<close>, or the text
  \<open>[object Object]\<close>, followed by a number of digits \<open>1\<close>; a built-in function of
  \<open>Object.prototype\<close>; and the object \<open>Object.prototype\<close> itself.
\<close>

datatype Value =
    Undefined
  | Number nat
  | NaN
  | FunctionText string nat
  | ObjectText nat
  | Function string
  | ObjectPrototype

text \<open>
  \<open>genreTotals\<close>, the rows of the matrix and the matrix are plain objects (\<open>{}\<close>): they
  inherit from \<open>Object.prototype\<close>. An object is given by its own properties. The
  properties it inherits are the functions of \<open>Object.prototype\<close> and the accessor
  \<open>__proto__\<close>, whose getter returns the prototype.
\<close>

type_synonym Object = "string \<rightharpoonup> Value"

definition prototype_functions :: "string list" where
  "prototype_functions =
     [''constructor'', ''hasOwnProperty'', ''isPrototypeOf'', ''propertyIsEnumerable'',
      ''toLocaleString'', ''toString'', ''valueOf'', ''__defineGetter__'', ''__defineSetter__'',
      ''__lookupGetter__'', ''__lookupSetter__'']"

text \<open>Reading \<open>obj[k]\<close>: the own property, else the inherited one, else \<open>undefined\<close>.\<close>

definition get_prop :: "Object \<Rightarrow> string \<Rightarrow> Value" where
  "get_prop obj k =
     (case obj k of
        Some v \<Rightarrow> v
      | None \<Rightarrow> if k = ''__proto__'' then ObjectPrototype
                else if k \<in> set prototype_functions then Function k
                else Undefined)"

text \<open>
  Writing \<open>obj[k] = v\<close>. For every name but \<open>__proto__\<close> the object gets (or changes) an own
  property, also when it inherits a function of that name. For \<open>__proto__\<close> the inherited
  setter runs: a value that is not an object is ignored, and the only object that
  \<open>coMatrix\<close> ever writes there is \<open>Object.prototype\<close>, which is the prototype already. The
  object is unchanged in both cases.
\<close>

definition set_prop :: "Object \<Rightarrow> string \<Rightarrow> Value \<Rightarrow> Object" where
  "set_prop obj k v = (if k = ''__proto__'' then obj else obj(k \<mapsto> v))"

text \<open>\<open>v || 0\<close>: \<open>v\<close> when it is truthy, else 0.\<close>

fun truthy :: "Value \<Rightarrow> bool" where
  "truthy Undefined = False"
| "truthy (Number n) = (n \<noteq> 0)"
| "truthy NaN = False"
| "truthy (FunctionText f k) = True"
| "truthy (ObjectText k) = True"
| "truthy (Function f) = True"
| "truthy ObjectPrototype = True"

definition or_zero :: "Value \<Rightarrow> Value" where
  "or_zero v = (if truthy v then v else Number 0)"

text \<open>
  \<open>v + 1\<close>: addition on a number; on a string, a function or an object it is string
  concatenation with \<open>"1"\<close> (a function turns into its source text, \<open>Object.prototype\<close>
  into \<open>[object Object]\<close>).
\<close>

fun plus_one :: "Value \<Rightarrow> Value" where
  "plus_one Undefined = NaN"
| "plus_one (Number n) = Number (n + 1)"
| "plus_one NaN = NaN"
| "plus_one (FunctionText f k) = FunctionText f (k + 1)"
| "plus_one (ObjectText k) = ObjectText (k + 1)"
| "plus_one (Function f) = FunctionText f 1"
| "plus_one ObjectPrototype = ObjectText 1"

text \<open>The new value of \<open>v++\<close>: the value as a number, plus 1. Only a number is a number;
  the strings above, functions, objects and \<open>undefined\<close> convert to \<open>NaN\<close>.\<close>

fun increment :: "Value \<Rightarrow> Value" where
  "increment (Number n) = Number (n + 1)"
| "increment v = NaN"

text \<open>\<open>genreTotals[g] = (genreTotals[g] || 0) + 1\<close>, for every label of every record.\<close>

definition count_genre :: "Object \<Rightarrow> string \<Rightarrow> Object" where
  "count_genre totals g = set_prop totals g (plus_one (or_zero (get_prop totals g)))"

definition genreTotals :: "TMovie list \<Rightarrow> Object" where
  "genreTotals movies = foldl (\<lambda>totals m. foldl count_genre totals (genres m)) Map.empty movies"

text \<open>
  \<open>matrix: { [row: string]: { [col: string]: number } }\<close>. The matrix is a plain object
  too: its own properties are row objects, and \<open>matrix['__proto__'] = {}\<close> makes the new
  object the prototype of the matrix instead of an own property (\<open>proto_row\<close>; \<open>None\<close> as long
  as the prototype is \<open>Object.prototype\<close>).
\<close>

record Matrix =
  rows :: "string \<rightharpoonup> Object"
  proto_row :: "Object option"

definition empty_matrix :: Matrix where
  "empty_matrix = \<lparr>rows = Map.empty, proto_row = None\<rparr>"

text \<open>\<open>matrix[g] = {}\<close>\<close>

definition assign_row :: "Matrix \<Rightarrow> string \<Rightarrow> Matrix" where
  "assign_row matrix g =
     (if g = ''__proto__'' then matrix\<lparr>proto_row := Some Map.empty\<rparr>
      else matrix\<lparr>rows := (rows matrix)(g \<mapsto> Map.empty)\<rparr>)"

text \<open>
  The object that \<open>matrix[g]\<close> reads as, for the property access that follows it: the own
  row; for \<open>__proto__\<close> the object that was made the prototype. \<open>None\<close> stands for every
  other reading (\<open>undefined\<close>, whose property access throws a TypeError, an inherited
  value that is no row, or \<open>Object.prototype\<close> itself): no matrix comes out then.
  \<open>store_row\<close> puts the changed row object back in its place.
\<close>

definition row_of :: "Matrix \<Rightarrow> string \<Rightarrow> Object option" where
  "row_of matrix g =
     (case rows matrix g of
        Some row \<Rightarrow> Some row
      | None \<Rightarrow> if g = ''__proto__'' then proto_row matrix else None)"

definition store_row :: "Matrix \<Rightarrow> string \<Rightarrow> Object \<Rightarrow> Matrix" where
  "store_row matrix g row =
     (case rows matrix g of
        Some r \<Rightarrow> matrix\<lparr>rows := (rows matrix)(g \<mapsto> row)\<rparr>
      | None \<Rightarrow> matrix\<lparr>proto_row := Some row\<rparr>)"

text \<open>\<open>matrix[g][h] = v\<close> and \<open>matrix[g][h]++\<close>\<close>

definition set_cell :: "Matrix \<Rightarrow> string \<Rightarrow> string \<Rightarrow> Value \<Rightarrow> Matrix option" where
  "set_cell matrix g h v =
     (case row_of matrix g of
        None \<Rightarrow> None
      | Some row \<Rightarrow> Some (store_row matrix g (set_prop row h v)))"

definition incr_cell :: "Matrix \<Rightarrow> string \<Rightarrow> string \<Rightarrow> Matrix option" where
  "incr_cell matrix g h =
     (case row_of matrix g of
        None \<Rightarrow> None
      | Some row \<Rightarrow> Some (store_row matrix g (set_prop row h (increment (get_prop row h)))))"

text \<open>A \<open>forEach\<close> or \<open>for\<close> loop whose body may fail: it stops at the first failure.\<close>

fun foldM :: "('s \<Rightarrow> 'a \<Rightarrow> 's option) \<Rightarrow> 's \<Rightarrow> 'a list \<Rightarrow> 's option" where
  "foldM f s [] = Some s"
| "foldM f s (x # xs) = (case f s x of None \<Rightarrow> None | Some s' \<Rightarrow> foldM f s' xs)"

text \<open>The first loop, for one \<open>g\<close>: \<open>matrix[g] = {}\<close>, then \<open>matrix[g][h] = 0\<close> for every \<open>h\<close>.\<close>

definition init_row :: "string list \<Rightarrow> Matrix \<Rightarrow> string \<Rightarrow> Matrix option" where
  "init_row gs matrix g = foldM (\<lambda>m h. set_cell m g h (Number 0)) (assign_row matrix g) gs"

definition init_matrix :: "string list \<Rightarrow> Matrix option" where
  "init_matrix gs = foldM (init_row gs) empty_matrix gs"

text \<open>\<open>matrix[g][g] = genreTotals[g] || 0\<close>\<close>

definition set_diagonal :: "Object \<Rightarrow> Matrix \<Rightarrow> string \<Rightarrow> Matrix option" where
  "set_diagonal totals matrix g = set_cell matrix g g (or_zero (get_prop totals g))"

text \<open>
  The two nested \<open>for\<close> loops over the labels \<open>gs\<close> of one record. \<open>pair_inner\<close> is the loop
  of \<open>j\<close> from \<open>i + 1\<close> for one \<open>g1 = gs[i]\<close>, over the labels after it; \<open>pair_outer\<close> is the
  loop of \<open>i\<close>.
\<close>

fun pair_inner :: "Matrix \<Rightarrow> string \<Rightarrow> string list \<Rightarrow> Matrix option" where
  "pair_inner matrix g1 [] = Some matrix"
| "pair_inner matrix g1 (g2 # rest) =
     (case incr_cell matrix g1 g2 of
        None \<Rightarrow> None
      | Some m1 \<Rightarrow> (case incr_cell m1 g2 g1 of
                     None \<Rightarrow> None
                   | Some m2 \<Rightarrow> pair_inner m2 g1 rest))"

fun pair_outer :: "Matrix \<Rightarrow> string list \<Rightarrow> Matrix option" where
  "pair_outer matrix [] = Some matrix"
| "pair_outer matrix (g1 # rest) =
     (case pair_inner matrix g1 rest of
        None \<Rightarrow> None
      | Some m1 \<Rightarrow> pair_outer m1 rest)"

definition coMatrix :: "TMovie list \<Rightarrow> Matrix option" where
  "coMatrix movies =
     (let gs = heatmap_genres movies;
          totals = genreTotals movies
      in case init_matrix gs of
           None \<Rightarrow> None
         | Some m0 \<Rightarrow>
             (case foldM (set_diagonal totals) m0 gs of
                None \<Rightarrow> None
              | Some m1 \<Rightarrow> foldM (\<lambda>matrix m. pair_outer matrix (genres m)) m1 movies))"

text \<open>Reading \<open>matrix[g][h]\<close>.\<close>

definition matrix_at :: "Matrix \<Rightarrow> string \<Rightarrow> string \<Rightarrow> Value option" where
  "matrix_at matrix g h =
     (case row_of matrix g of None \<Rightarrow> None | Some row \<Rightarrow> Some (get_prop row h))"

text \<open>\<open>coMatrix[g][h]\<close>, the cell of the matrix the component computes.\<close>

definition coMatrix_at :: "TMovie list \<Rightarrow> string \<Rightarrow> string \<Rightarrow> Value option" where
  "coMatrix_at movies g h =
     (case coMatrix movies of None \<Rightarrow> None | Some matrix \<Rightarrow> matrix_at matrix g h)"

text \<open>The quantities the specification gives for the matrix: the occurrences of a label in all
  records, and the number of records that list two labels.\<close>

definition total_occurrences :: "TMovie list \<Rightarrow> string \<Rightarrow> nat" where
  "total_occurrences movies g = count_list (concat (map genres movies)) g"

definition records_with_both :: "TMovie list \<Rightarrow> string \<Rightarrow> string \<Rightarrow> nat" where
  "records_with_both movies g h =
     length (filter (\<lambda>m. g \<in> set (genres m) \<and> h \<in> set (genres m)) movies)"

text \<open>The record sets of the examples.\<close>

definition movies_pairs :: "TMovie list" where
  "movies_pairs = [\<lparr>year = 1999, genres = [''Comedy'', ''Action'']\<rparr>,
                   \<lparr>year = 2001, genres = [''Action'', ''Drama'', ''Comedy'']\<rparr>,
                   \<lparr>year = 2001, genres = [''Drama'']\<rparr>]"

definition movies_repeat :: "TMovie list" where
  "movies_repeat = [\<lparr>year = 2000, genres = [''Action'', ''Comedy'', ''Comedy'']\<rparr>]"

definition movies_constructor :: "TMovie list" where
  "movies_constructor = [\<lparr>year = 2000, genres = [''constructor'']\<rparr>]"

definition movies_proto :: "TMovie list" where
  "movies_proto = [\<lparr>year = 2000, genres = [''Action'', ''__proto__'']\<rparr>]"

text \<open>
  Quantities for the analysis of the pair loop: the pairs \<open>(i, j)\<close>, \<open>i < j\<close>,
  of positions of one category list that hold \<open>a\<close> and then \<open>b\<close>; what all records add
  to the cell \<open>(a, b)\<close>; a matrix that holds the numbers \<open>A g h\<close> on the categories
  \<open>K\<close>. The names that a plain object inherits from \<open>Object.prototype\<close>, the record sets
  that use none of them as a category, and the number read from an own property.
\<close>

fun pair_count :: "string list \<Rightarrow> string \<Rightarrow> string \<Rightarrow> nat" where
  "pair_count [] a b = 0"
| "pair_count (g # rest) a b = (if g = a then count_list rest b else 0) + pair_count rest a b"

definition pairs_total :: "TMovie list \<Rightarrow> string \<Rightarrow> string \<Rightarrow> nat" where
  "pairs_total movies a b =
     sum_list (map (\<lambda>m. pair_count (genres m) a b + pair_count (genres m) b a) movies)"

definition represents :: "string set \<Rightarrow> (string \<Rightarrow> string \<Rightarrow> nat) \<Rightarrow> Matrix \<Rightarrow> bool" where
  "represents K A matrix \<longleftrightarrow> (\<forall>g\<in>K. \<forall>h\<in>K. matrix_at matrix g h = Some (Number (A g h)))"

definition prototype_names :: "string list" where
  "prototype_names = ''__proto__'' # prototype_functions"

definition plain_labels :: "TMovie list \<Rightarrow> bool" where
  "plain_labels movies \<longleftrightarrow> set (concat (map genres movies)) \<inter> set prototype_names = {}"

definition count_of :: "Object \<Rightarrow> string \<Rightarrow> nat" where
  "count_of totals x = (case totals x of Some (Number n) \<Rightarrow> n | _ \<Rightarrow> 0)"

definition counted :: "Object \<Rightarrow> string \<Rightarrow> bool" where
  "counted totals x \<longleftrightarrow> totals x = None \<or> (\<exists>n. totals x = Some (Number n))"

section \<open>RankedLine.svelte: cumulative rank trajectories\<close>

text \<open>
  This chart reads \<open>d.year\<close> itself, where the tallies read \<open>d.year.getFullYear()\<close>: as the
  key of \<open>d3.group\<close> and in the comparison \<open>a.year - b.year\<close>, both of which take the number
  the field converts to (for a \<open>Date\<close>, its time value). The page builds the field as
  \<open>new Date(row.year)\<close>, an Invalid Date when the text is no date; the number of an Invalid
  Date is \<open>NaN\<close>. The chart has no filter on the year, so such records take part in
  \<open>processedData\<close>. A record as this chart reads it: the number of its year, \<open>None\<close> for
  \<open>NaN\<close>, and its genres.
\<close>

record LineMovie =
  line_year :: "int option"
  line_genres :: "string list"

text \<open>
  The objects of \<open>processedData\<close>. An entry of \<open>top3\<close> is \<open>{ ...s, rank: i + 1 }\<close>, a
  \<open>Datum\<close> with a rank. The \<open>year\<close> fields of a year's entry and of a trajectory point are
  \<open>yd_year\<close> and \<open>pt_year\<close> here; they hold the key of the group, \<open>None\<close> for \<open>NaN\<close>.
\<close>

record Ranked = Datum +
  rank :: nat

record YearData =
  yd_year :: "int option"
  top3 :: "Ranked list"

record Point =
  pt_year :: "int option"
  cumulative :: int

record ProcessedData =
  yearData :: "YearData list"
  genreTrajectories :: "Point list list"
  years :: "int option list"

text \<open>The chart's \<open>genres\<close>: \<open>Array.from(allGenres)\<close>, the labels in the order in which the
  \<open>Set\<close> first met them.\<close>

definition chart_genres :: "LineMovie list \<Rightarrow> string list" where
  "chart_genres movies = foldl (\<lambda>s m. foldl set_add s (line_genres m)) [] movies"

text \<open>\<open>sorted.map((s, i) => ({ ...s, rank: i + 1 }))\<close>\<close>

definition with_ranks :: "Datum list \<Rightarrow> Ranked list" where
  "with_ranks sorted3 =
     map (\<lambda>(s, i). \<lparr>genre = genre s, count = count s, rank = i + 1\<rparr>) (zip sorted3 [0..<length sorted3])"

text \<open>The callback of \<open>Array.from(yearGroups.entries()).map\<close>, on one \<open>[year, group]\<close>: the
  labels of the group are counted and sorted as in the tallies, and cut to three.\<close>

definition year_entry :: "int option \<times> LineMovie list \<Rightarrow> YearData" where
  "year_entry yg =
     (let flatGenres = concat (map line_genres (snd yg));
          sorted3 = take 3 (tally flatGenres)
      in \<lparr>yd_year = fst yg, top3 = with_ranks sorted3\<rparr>)"

text \<open>
  \<open>.sort((a, b) => a.year - b.year)\<close>. The difference is \<open>NaN\<close> when one of the two years
  is, and \<open>Array.prototype.sort\<close> reads a comparator result \<open>NaN\<close> as \<open>+0\<close>: the entry of
  the invalid years compares equal to every entry. The sort is stable. So
  \<^item> without such an entry the result is the stable sort by ascending year;
  \<^item> with such an entry and at most one numeric year among the others, every comparison
    gives 0 and the array stays as it is;
  \<^item> with such an entry and two different numeric years the comparator is not a consistent
    comparison function (both years equal the invalid one, and differ from each other),
    and ECMAScript leaves the order to the implementation. The order the engine picks is
    the parameter \<open>engine_order\<close>.
\<close>

definition sort_by_year :: "(YearData list \<Rightarrow> YearData list) \<Rightarrow> YearData list \<Rightarrow> YearData list" where
  "sort_by_year engine_order yds =
     (if None \<notin> set (map yd_year yds) then sort_key (\<lambda>yd. the (yd_year yd)) yds
      else if length (remdups (filter (\<lambda>y. y \<noteq> None) (map yd_year yds))) \<le> 1 then yds
      else engine_order yds)"

text \<open>The body of \<open>yearData.forEach\<close> for one genre, on the pair of the running
  \<open>cumulative\<close> and the \<open>trajectory\<close> built so far.\<close>

fun add_point :: "string \<Rightarrow> int \<times> Point list \<Rightarrow> YearData \<Rightarrow> int \<times> Point list" where
  "add_point g (cumulative0, trajectory) yd =
     (let cumulative1 = (case find (\<lambda>t. genre t = g) (top3 yd) of
                           Some entry \<Rightarrow> cumulative0 + (4 - int (rank entry))
                         | None \<Rightarrow> cumulative0)
      in (cumulative1, trajectory @ [\<lparr>pt_year = yd_year yd, cumulative = cumulative1\<rparr>]))"

definition trajectory_of :: "YearData list \<Rightarrow> string \<Rightarrow> Point list" where
  "trajectory_of yds g = snd (foldl (add_point g) (0, []) yds)"

text \<open>\<open>processedData\<close>. \<open>d3.group\<close> keeps its keys in a \<open>Map\<close>, for which \<open>NaN\<close> equals
  \<open>NaN\<close>: the records with an invalid year form one group, with the key \<open>None\<close>.\<close>

definition processedData :: "(YearData list \<Rightarrow> YearData list) \<Rightarrow> LineMovie list \<Rightarrow> ProcessedData" where
  "processedData engine_order movies =
     (if movies = [] then \<lparr>yearData = [], genreTrajectories = [], years = []\<rparr>
      else let yearGroups = d3_group movies line_year;
               yds = sort_by_year engine_order (map year_entry yearGroups)
           in \<lparr>yearData = yds,
               genreTrajectories = map (trajectory_of yds) (chart_genres movies),
               years = map yd_year yds\<rparr>)"

text \<open>
  What the specification says of the computation. The labels of a year: those of the
  records of that year. The ranking of a year: the tally of its labels. The rank of a
  category in a ranking: its position, from 1. The award of a category in a year: 3, 2, 1
  for the ranks 1, 2, 3, and 0 otherwise (also when the category does not occur in that
  year). The years present, in chronological order; and the sum of the awards of a
  category over the years present up to and including a year. A record set has valid
  years when no year is \<open>NaN\<close>.
\<close>

definition line_labels :: "LineMovie list \<Rightarrow> int \<Rightarrow> string list" where
  "line_labels movies y = concat (map line_genres (filter (\<lambda>m. line_year m = Some y) movies))"

definition ranking :: "LineMovie list \<Rightarrow> int \<Rightarrow> Datum list" where
  "ranking movies y = tally (line_labels movies y)"

fun rank_in :: "string \<Rightarrow> Datum list \<Rightarrow> nat option" where
  "rank_in g [] = None"
| "rank_in g (d # ds) = (if genre d = g then Some 1 else map_option Suc (rank_in g ds))"

definition award :: "LineMovie list \<Rightarrow> int \<Rightarrow> string \<Rightarrow> int" where
  "award movies y g =
     (case rank_in g (ranking movies y) of
        None \<Rightarrow> 0
      | Some r \<Rightarrow> if r = 1 then 3 else if r = 2 then 2 else if r = 3 then 1 else 0)"

definition years_present :: "LineMovie list \<Rightarrow> int list" where
  "years_present movies = sorted_list_of_set (Option.these (line_year ` set movies))"

definition awards_upto :: "LineMovie list \<Rightarrow> string \<Rightarrow> int \<Rightarrow> int" where
  "awards_upto movies g y =
     sum_list (map (\<lambda>y'. award movies y' g) (filter (\<lambda>y'. y' \<le> y) (years_present movies)))"

definition valid_years :: "LineMovie list \<Rightarrow> bool" where
  "valid_years movies \<longleftrightarrow> None \<notin> line_year ` set movies"

text \<open>For the proofs: the entry of \<open>yearData\<close> for a year.\<close>

definition year_row :: "LineMovie list \<Rightarrow> int \<Rightarrow> YearData" where
  "year_row movies y = \<lparr>yd_year = Some y, top3 = with_ranks (take 3 (ranking movies y))\<rparr>"

text \<open>
  One order an engine may pick: that of an insertion sort. \<open>compare_years\<close> is the
  comparator as the sort reads it, \<open>a.year - b.year\<close> with \<open>NaN\<close> taken as 0. The sort
  takes the entries from left to right and moves each one to the left, past the entries
  that compare greater than it; \<open>insert_entry\<close> does this on the sorted part in reverse,
  the entry next to the new one first.
\<close>

definition compare_years :: "YearData \<Rightarrow> YearData \<Rightarrow> int" where
  "compare_years a b =
     (case yd_year a of
        None \<Rightarrow> 0
      | Some x \<Rightarrow> (case yd_year b of None \<Rightarrow> 0 | Some y \<Rightarrow> x - y))"

fun insert_entry :: "YearData \<Rightarrow> YearData list \<Rightarrow> YearData list" where
  "insert_entry x [] = [x]"
| "insert_entry x (y # ys) =
     (if compare_years y x > 0 then y # insert_entry x ys else x # y # ys)"

definition insertion_order :: "YearData list \<Rightarrow> YearData list" where
  "insertion_order yds = rev (foldl (\<lambda>sorted_part x. insert_entry x sorted_part) [] yds)"

text \<open>The record sets of the examples: one with valid years; two with a record whose
  year is invalid, before and after a record of the year 2000; and one with such a record
  between records of the years 2001 and 2000.\<close>

definition movies_ranked :: "LineMovie list" where
  "movies_ranked = [\<lparr>line_year = Some 2001, line_genres = [''A'', ''B'', ''C'', ''D'']\<rparr>,
                    \<lparr>line_year = Some 1999, line_genres = [''B'', ''A'']\<rparr>,
                    \<lparr>line_year = Some 2001, line_genres = [''C'', ''D'']\<rparr>,
                    \<lparr>line_year = Some 1999, line_genres = [''A'']\<rparr>,
                    \<lparr>line_year = Some 2001, line_genres = [''D'']\<rparr>]"

definition movies_invalid_first :: "LineMovie list" where
  "movies_invalid_first = [\<lparr>line_year = None, line_genres = [''A'']\<rparr>,
                           \<lparr>line_year = Some 2000, line_genres = [''B'']\<rparr>]"

definition movies_invalid_last :: "LineMovie list" where
  "movies_invalid_last = [\<lparr>line_year = Some 2000, line_genres = [''A'']\<rparr>,
                          \<lparr>line_year = None, line_genres = [''A'']\<rparr>]"

definition movies_invalid_between :: "LineMovie list" where
  "movies_invalid_between = [\<lparr>line_year = Some 2001, line_genres = [''A'']\<rparr>,
                             \<lparr>line_year = None, line_genres = [''B'']\<rparr>,
                             \<lparr>line_year = Some 2000, line_genres = [''A'']\<rparr>]"

section \<open>RankBar.svelte: the data join and its transitions\<close>

text \<open>\<open>ranked\<close>: \<open>[...data].sort((a, b) => b.count - a.count)\<close>\<close>

definition ranked :: "Datum list \<Rightarrow> Datum list" where
  "ranked data = sort_by_count_desc data"

text \<open>
  A \<open>g.bar\<close> element of the chart, as far as the join reads it: the datum bound to it
  (\<open>__data__\<close>), and the time at which a running exit transition will end and remove it
  (\<open>.transition().duration(300)...remove()\<close>), if one is running. Times are milliseconds on
  the clock of the transitions.
\<close>

record BarElement =
  bound :: Datum
  removeAt :: "nat option"

text \<open>
  A scheduled transition: the category of the bar it is on, the selection \<open>draw\<close> created
  it on (\<open>enter\<close>, \<open>bars\<close>, \<open>bars.exit()\<close>), the element of the bar it animates (the group, its
  \<open>rect\<close>, its \<open>text.value\<close>), and the times at which it starts (creation time plus
  \<open>delay\<close>) and ends (start plus \<open>duration\<close>).
\<close>

datatype Selection = Entering | Updating | Exiting

datatype Target = BarGroup | BarRect | ValueText

record Transition =
  tr_genre :: string
  tr_selection :: Selection
  tr_target :: Target
  starts :: nat
  ends :: nat

text \<open>
  \<open>selection.data(data, d => d.genre)\<close>, the keyed join of d3 on the \<open>g.bar\<close> elements of
  the chart, in document order. First every key is mapped to the first element that has
  it (an element whose key is taken already is left for the exit selection). Then the
  data are visited in order: a datum whose key has an element is bound to it (update) and
  the key is removed from the map; any other datum is an enter datum. The result lists,
  per datum, the index of the element it is bound to, or \<open>Ent\<close>.
\<close>

datatype Slot = Upd nat | Ent

fun nodeByKeyValue :: "BarElement list \<Rightarrow> nat \<Rightarrow> (string \<rightharpoonup> nat) \<Rightarrow> (string \<rightharpoonup> nat)" where
  "nodeByKeyValue [] i m = m"
| "nodeByKeyValue (node # nodes) i m =
     nodeByKeyValue nodes (i + 1)
       (if m (genre (bound node)) \<noteq> None then m else m(genre (bound node) \<mapsto> i))"

fun bindData :: "Datum list \<Rightarrow> (string \<rightharpoonup> nat) \<Rightarrow> Slot list" where
  "bindData [] m = []"
| "bindData (d # data) m =
     (case m (genre d) of
        Some k \<Rightarrow> Upd k # bindData data (m(genre d := None))
      | None \<Rightarrow> Ent # bindData data m)"

definition bindKey :: "BarElement list \<Rightarrow> Datum list \<Rightarrow> Slot list" where
  "bindKey nodes data = bindData data (nodeByKeyValue nodes 0 Map.empty)"

text \<open>The three selections of the join: \<open>bars.enter()\<close>, \<open>bars\<close> (update) and \<open>bars.exit()\<close>,
  the elements no datum was bound to.\<close>

definition enter_data :: "Datum list \<Rightarrow> Slot list \<Rightarrow> Datum list" where
  "enter_data data slots = map fst (filter (\<lambda>(d, s). s = Ent) (zip data slots))"

definition update_data :: "Datum list \<Rightarrow> Slot list \<Rightarrow> Datum list" where
  "update_data data slots = map fst (filter (\<lambda>(d, s). s \<noteq> Ent) (zip data slots))"

definition exit_nodes :: "BarElement list \<Rightarrow> Slot list \<Rightarrow> BarElement list" where
  "exit_nodes nodes slots =
     map fst (filter (\<lambda>(node, k). Upd k \<notin> set slots) (zip nodes [0..<length nodes]))"

text \<open>\<open>selection.transition().delay(delay).duration(duration)\<close> on the given elements of
  the bars of the given categories, created at time \<open>now\<close>.\<close>

definition transitions_on :: "Selection \<Rightarrow> Target list \<Rightarrow> nat \<Rightarrow> nat \<Rightarrow> nat \<Rightarrow> string list \<Rightarrow> Transition list" where
  "transitions_on sel targets now delay duration keys =
     concat (map (\<lambda>target. map (\<lambda>k. \<lparr>tr_genre = k, tr_selection = sel, tr_target = target,
                                         starts = now + delay, ends = now + delay + duration\<rparr>) keys)
                 targets)"

text \<open>
  The children of the chart after \<open>draw\<close>. \<open>enter.append("g")\<close> inserts the element of an
  enter datum before the element of the next update datum in data order, or last when
  there is none. An element a datum was bound to carries that datum, and a transition
  started on it ends a running exit transition without removing the element; an element
  of the exit selection is removed when its new exit transition ends, 300 ms from now.
\<close>

fun next_update :: "Slot list \<Rightarrow> nat option" where
  "next_update [] = None"
| "next_update (Upd k # slots) = Some k"
| "next_update (Ent # slots) = next_update slots"

fun enters_before :: "Datum list \<Rightarrow> Slot list \<Rightarrow> nat option \<Rightarrow> Datum list" where
  "enters_before (d # data) (Ent # slots) nxt =
     (if next_update slots = nxt then d # enters_before data slots nxt else enters_before data slots nxt)"
| "enters_before (d # data) (Upd k # slots) nxt = enters_before data slots nxt"
| "enters_before _ _ nxt = []"

definition new_bar :: "Datum \<Rightarrow> BarElement" where
  "new_bar d = \<lparr>bound = d, removeAt = None\<rparr>"

fun datum_of :: "Datum list \<Rightarrow> Slot list \<Rightarrow> nat \<Rightarrow> Datum option" where
  "datum_of (d # data) (s # slots) k = (if s = Upd k then Some d else datum_of data slots k)"
| "datum_of _ _ k = None"

definition joined :: "nat \<Rightarrow> Datum list \<Rightarrow> Slot list \<Rightarrow> BarElement \<times> nat \<Rightarrow> BarElement" where
  "joined now data slots nk =
     (case datum_of data slots (snd nk) of
        Some d \<Rightarrow> \<lparr>bound = d, removeAt = None\<rparr>
      | None \<Rightarrow> (fst nk)\<lparr>removeAt := Some (now + 300)\<rparr>)"

definition children_of :: "nat \<Rightarrow> BarElement list \<Rightarrow> Datum list \<Rightarrow> Slot list \<Rightarrow> BarElement list" where
  "children_of now nodes data slots =
     concat (map (\<lambda>nk. map new_bar (enters_before data slots (Some (snd nk)))
                                @ [joined now data slots nk])
                        (zip nodes [0..<length nodes]))
            @ map new_bar (enters_before data slots None)"

text \<open>
  \<open>draw(data)\<close> at time \<open>now\<close> on the \<open>g.bar\<close> elements \<open>nodes\<close> of the chart: the children of
  the chart it leaves, and the transitions it schedules, in the order of the code: on
  \<open>bars\<close> (the group, its rect, its value text) with no delay and 600 ms duration, on
  \<open>enter\<close> (the same three) with 600 ms delay and 400 ms duration, on \<open>bars.exit()\<close> with
  300 ms duration.
\<close>

definition draw :: "nat \<Rightarrow> BarElement list \<Rightarrow> Datum list \<Rightarrow> BarElement list \<times> Transition list" where
  "draw now nodes data =
     (let slots = bindKey nodes data;
          enter = map genre (enter_data data slots);
          bars = map genre (update_data data slots);
          exit = map (\<lambda>node. genre (bound node)) (exit_nodes nodes slots)
      in (children_of now nodes data slots,
          transitions_on Updating [BarGroup, BarRect, ValueText] now 0 600 bars
          @ transitions_on Entering [BarGroup, BarRect, ValueText] now 600 400 enter
          @ transitions_on Exiting [BarGroup] now 0 300 exit))"

text \<open>The elements \<open>chart.selectAll("g.bar")\<close> finds at time \<open>now\<close>: those not removed yet.\<close>

definition in_chart :: "nat \<Rightarrow> BarElement list \<Rightarrow> BarElement list" where
  "in_chart now children =
     filter (\<lambda>node. case removeAt node of None \<Rightarrow> True | Some t \<Rightarrow> now < t) children"

text \<open>A render of the component at time \<open>now\<close>: the effect calls \<open>draw(ranked)\<close>.\<close>

definition render :: "nat \<Rightarrow> BarElement list \<Rightarrow> Datum list \<Rightarrow> BarElement list \<times> Transition list" where
  "render now children data = draw now (in_chart now children) (ranked data)"

text \<open>
  Reading a render: the categories of the entering bars and of the updating bars (one
  transition on the group per bar), and the categories that key an element of the chart
  at a time.
\<close>

definition entering :: "Transition list \<Rightarrow> string list" where
  "entering trs = map tr_genre (filter (\<lambda>tr. tr_selection tr = Entering \<and> tr_target tr = BarGroup) trs)"

definition updating :: "Transition list \<Rightarrow> string list" where
  "updating trs = map tr_genre (filter (\<lambda>tr. tr_selection tr = Updating \<and> tr_target tr = BarGroup) trs)"

definition chart_keys :: "nat \<Rightarrow> BarElement list \<Rightarrow> string set" where
  "chart_keys now children = (\<lambda>node. genre (bound node)) ` set (in_chart now children)"

text \<open>For the proofs: the slot of a datum under a key map.\<close>

definition slot_of :: "(string \<rightharpoonup> nat) \<Rightarrow> Datum \<Rightarrow> Slot" where
  "slot_of m d = (case m (genre d) of Some k \<Rightarrow> Upd k | None \<Rightarrow> Ent)"

text \<open>The data of the examples.\<close>

definition data_A :: "Datum list" where
  "data_A = [\<lparr>genre = ''A'', count = 5\<rparr>]"

definition data_AB :: "Datum list" where
  "data_AB = [\<lparr>genre = ''A'', count = 5\<rparr>, \<lparr>genre = ''B'', count = 10\<rparr>]"

definition data_ABC :: "Datum list" where
  "data_ABC = [\<lparr>genre = ''A'', count = 5\<rparr>, \<lparr>genre = ''B'', count = 10\<rparr>, \<lparr>genre = ''C'', count = 1\<rparr>]"

definition data_AA :: "Datum list" where
  "data_AA = [\<lparr>genre = ''A'', count = 5\<rparr>, \<lparr>genre = ''A'', count = 3\<rparr>]"

section \<open>Facts about grouping and tallying\<close>

lemma group_push_keys:
  "map fst (group_push gs k v) = (if k \<in> fst ` set gs then map fst gs else map fst gs @ [k])"
  by (induction gs k v rule: group_push.induct) auto

lemma group_push_map_of:
  "map_of (group_push gs k v) =
     (map_of gs)(k \<mapsto> (case map_of gs k of None \<Rightarrow> [v] | Some vs \<Rightarrow> vs @ [v]))"
  by (induction gs k v rule: group_push.induct) (auto simp: fun_eq_iff)

lemma d3_group_snoc:
  "d3_group (xs @ [v]) key = group_push (d3_group xs key) (key v) v"
  by (simp add: d3_group_def)

lemma d3_group_Nil: "d3_group [] key = []"
  by (simp add: d3_group_def)

lemma d3_group_keys_set: "fst ` set (d3_group xs key) = key ` set xs"
proof (induction xs rule: rev_induct)
  case Nil
  show ?case by (simp add: d3_group_Nil)
next
  case (snoc v xs)
  have "set (map fst (d3_group (xs @ [v]) key)) = insert (key v) (set (map fst (d3_group xs key)))"
    unfolding d3_group_snoc group_push_keys by auto
  with snoc show ?case by auto
qed

lemma d3_group_keys_distinct: "distinct (map fst (d3_group xs key))"
proof (induction xs rule: rev_induct)
  case Nil
  show ?case by (simp add: d3_group_Nil)
next
  case (snoc v xs)
  then show ?case
    unfolding d3_group_snoc group_push_keys by auto
qed

lemma d3_group_map_of:
  "map_of (d3_group xs key) k =
     (if k \<in> key ` set xs then Some (filter (\<lambda>v. key v = k) xs) else None)"
proof (induction xs arbitrary: k rule: rev_induct)
  case Nil
  show ?case by (simp add: d3_group_Nil)
next
  case (snoc v xs)
  show ?case
  proof (cases "k = key v")
    case True
    then show ?thesis
      unfolding d3_group_snoc group_push_map_of
      by (auto simp: snoc filter_empty_conv image_iff)
  next
    case False
    then show ?thesis
      unfolding d3_group_snoc group_push_map_of
      by (auto simp: snoc)
  qed
qed

lemma d3_group_entry:
  assumes "(k, vs) \<in> set (d3_group xs key)"
  shows "vs = filter (\<lambda>v. key v = k) xs" and "k \<in> key ` set xs"
proof -
  from assms have "map_of (d3_group xs key) k = Some vs"
    by (simp add: d3_group_keys_distinct)
  then show "vs = filter (\<lambda>v. key v = k) xs" and "k \<in> key ` set xs"
    by (auto simp: d3_group_map_of split: if_splits)
qed

lemma rollup_count_entry:
  assumes "(k, n) \<in> set (d3_rollup xs length (\<lambda>d. d))"
  shows "n = count_list xs k" and "k \<in> set xs"
proof -
  from assms obtain vs where vs: "(k, vs) \<in> set (d3_group xs (\<lambda>d. d))" and n: "n = length vs"
    by (auto simp: d3_rollup_def)
  have eq: "filter (\<lambda>v. v = k) xs = filter ((=) k) xs"
    by (rule filter_cong) auto
  from d3_group_entry(1)[OF vs] n eq show "n = count_list xs k"
    by (simp add: count_list_eq_length_filter)
  from d3_group_entry(2)[OF vs] show "k \<in> set xs" by simp
qed

lemma rollup_keys: "map fst (d3_rollup xs reduce key) = map fst (d3_group xs key)"
  by (simp add: d3_rollup_def split_beta)


lemma tally_set: "set (tally labels) = to_datum ` set (d3_rollup labels length (\<lambda>d. d))"
  by (simp add: tally_def sort_by_count_desc_def)

lemma genre_to_datum: "genre (to_datum gc) = fst gc" "count (to_datum gc) = snd gc"
  by (simp_all add: to_datum_def)

lemma tally_count: "d \<in> set (tally labels) \<Longrightarrow> count d = count_list labels (genre d)"
  by (auto simp: tally_set genre_to_datum dest: rollup_count_entry)

lemma tally_genre_set: "genre ` set (tally labels) = set labels"
proof -
  have "genre ` set (tally labels) = fst ` set (d3_rollup labels length (\<lambda>d. d))"
    by (simp add: tally_set image_image genre_to_datum)
  also have "\<dots> = set (map fst (d3_rollup labels length (\<lambda>d. d)))" by simp
  also have "\<dots> = set labels"
    unfolding rollup_keys using d3_group_keys_set[of labels "\<lambda>d. d"] by simp
  finally show ?thesis .
qed

lemma distinct_map_sort_key:
  "distinct (map f (sort_key g xs)) = distinct (map f xs)"
  by (simp only: distinct_map set_sort distinct_sort)

lemma tally_distinct: "distinct (map genre (tally labels))"
proof -
  have "distinct (map fst (d3_rollup labels length (\<lambda>d. d)))"
    unfolding rollup_keys by (rule d3_group_keys_distinct)
  then have "distinct (map genre (map to_datum (d3_rollup labels length (\<lambda>d. d))))"
    by (simp add: comp_def genre_to_datum)
  then have "distinct (map genre (sort_by_count_desc (map to_datum (d3_rollup labels length (\<lambda>d. d)))))"
    unfolding sort_by_count_desc_def by (simp only: distinct_map_sort_key)
  then show ?thesis by (simp add: tally_def)
qed

lemma tally_sorted: "sorted_wrt (\<lambda>a b. count b \<le> count a) (tally labels)"
proof -
  have "sorted (map (\<lambda>d. - int (count d)) (tally labels))"
    unfolding tally_def sort_by_count_desc_def by (rule sorted_sort_key)
  then show ?thesis
    by (simp add: sorted_map)
qed

lemma tally_sum: "sum_list (map count (tally labels)) = length labels"
proof -
  have "sum_list (map count (tally labels)) = sum_list (map (\<lambda>d. count_list labels (genre d)) (tally labels))"
    by (rule arg_cong[where f=sum_list]) (simp add: tally_count)
  also have "\<dots> = sum_list (map (count_list labels) (map genre (tally labels)))"
    by (simp add: comp_def)
  also have "\<dots> = sum (count_list labels) (set (map genre (tally labels)))"
    by (rule sum_list_distinct_conv_sum_set) (rule tally_distinct)
  also have "\<dots> = sum (count_list labels) (set labels)"
    using tally_genre_set[of labels] by simp
  also have "\<dots> = length labels"
    by (rule sum_count_set) simp_all
  finally show ?thesis .
qed


lemma tally_is_reference: "reference_tally labels (tally labels)"
  unfolding reference_tally_def
  using tally_distinct tally_genre_set tally_sorted tally_count by blast

lemma count_list_concat:
  "count_list (concat xss) g = sum_list (map (\<lambda>xs. count_list xs g) xss)"
  by (induction xss) simp_all

lemma count_list_labels_mono:
  assumes "\<And>m. P m \<Longrightarrow> Q m"
  shows "count_list (concat (map genres (filter P movies))) g
           \<le> count_list (concat (map genres (filter Q movies))) g"
  using assms by (induction movies) auto

section \<open>The single-year tally against its reference\<close>

text \<open>
  C5, as the code has it. For every record set and every target year other than 0, the
  single-year tally is a tally of the labels of that year: one entry per distinct label
  of the records of that year, each with its number of occurrences, in non-increasing
  order of count; its counts sum to the number of labels of the records of that year;
  and the tally for 2000 of the two-record example is Action 2, Comedy 1.
\<close>

theorem aggregateYear_reference:
  assumes "y \<noteq> 0"
  shows "reference_tally (year_labels movies y) (aggregateYear movies y)
       \<and> sum_list (map count (aggregateYear movies y)) = length (year_labels movies y)
       \<and> aggregateYear movies_2000 2000 =
            [\<lparr>genre = ''Action'', count = 2\<rparr>, \<lparr>genre = ''Comedy'', count = 1\<rparr>]"
proof -
  have ex: "aggregateYear movies_2000 2000 =
      [\<lparr>genre = ''Action'', count = 2\<rparr>, \<lparr>genre = ''Comedy'', count = 1\<rparr>]"
    by code_simp
  show ?thesis
  proof (cases "movies = []")
    case True
    then show ?thesis
      using ex by (simp add: aggregateYear_def year_labels_def reference_tally_def)
  next
    case False
    with assms have "aggregateYear movies y = tally (year_labels movies y)"
      by (simp add: aggregateYear_def year_labels_def)
    then show ?thesis
      using ex by (simp add: tally_is_reference tally_sum)
  qed
qed

theorem aggregateYear_reference_witness:
  "reference_tally (year_labels movies_decade 1995) (aggregateYear movies_decade 1995)
   \<and> sum_list (map count (aggregateYear movies_decade 1995)) = 2"
proof -
  have "length (year_labels movies_decade 1995) = 2" by code_simp
  with aggregateYear_reference [of 1995 movies_decade] show ?thesis by simp
qed

text \<open>C5 as stated fails at target year 0: a record of the year 0 has labels, and the
  tally for 0 is empty.\<close>

theorem aggregateYear_year0_counterexample:
  "aggregateYear movies_year0 0 = []
   \<and> year_labels movies_year0 0 = [''Action'']
   \<and> \<not> reference_tally (year_labels movies_year0 0) (aggregateYear movies_year0 0)
   \<and> sum_list (map count (aggregateYear movies_year0 0)) \<noteq> length (year_labels movies_year0 0)"
proof -
  have a: "aggregateYear movies_year0 0 = []"
    by (simp add: aggregateYear_def)
  have l: "year_labels movies_year0 0 = [''Action'']"
    by (simp add: year_labels_def movies_year0_def)
  show ?thesis
    unfolding a l by (simp add: reference_tally_def)
qed

section \<open>The trailing window against the single year\<close>

text \<open>
  C2. For every record set and every target year, every entry of the single-year tally
  has an entry of the same category in the trailing-window tally ending at that year,
  with a count that is at least as large.
\<close>

theorem aggregateYearRange_dominates:
  "\<forall>d \<in> set (aggregateYear movies y).
     \<exists>d' \<in> set (aggregateYearRange movies y). genre d' = genre d \<and> count d \<le> count d'"
proof (cases "movies = [] \<or> y = 0")
  case True
  then show ?thesis by (auto simp: aggregateYear_def)
next
  case False
  define l1 where "l1 = concat (map genres (filter (\<lambda>m. year m = y) movies))"
  define l2 where "l2 = concat (map genres (filter (\<lambda>m. year m \<ge> y - 10 \<and> year m \<le> y) movies))"
  from False have a1: "aggregateYear movies y = tally l1"
    by (simp add: aggregateYear_def l1_def)
  from False have a2: "aggregateYearRange movies y = tally l2"
    by (simp add: aggregateYearRange_def l2_def)
  have le: "count_list l1 g \<le> count_list l2 g" for g
    unfolding l1_def l2_def by (rule count_list_labels_mono) simp
  show ?thesis
    unfolding a1 a2
  proof
    fix d assume d: "d \<in> set (tally l1)"
    then have "genre d \<in> set l1"
      using tally_genre_set[of l1] by blast
    then have "0 < count_list l1 (genre d)"
      using count_list_0_iff[of l1 "genre d"] by auto
    with le[of "genre d"] have "0 < count_list l2 (genre d)" by simp
    then have "genre d \<in> set l2"
      using count_list_0_iff[of l2 "genre d"] by simp
    then obtain d' where d': "d' \<in> set (tally l2)" "genre d' = genre d"
      using tally_genre_set[of l2] by (metis imageE)
    have "count d \<le> count d'"
      using le[of "genre d"] tally_count[OF d] tally_count[OF d'(1)] d'(2) by simp
    with d' show "\<exists>d' \<in> set (tally l2). genre d' = genre d \<and> count d \<le> count d'"
      by blast
  qed
qed

theorem aggregateYearRange_dominates_witness:
  "\<lparr>genre = ''Action'', count = 1\<rparr> \<in> set (aggregateYear movies_decade 2000)
   \<and> (\<exists>d' \<in> set (aggregateYearRange movies_decade 2000). genre d' = ''Action'' \<and> 1 \<le> count d')"
proof -
  have m: "\<lparr>genre = ''Action'', count = 1\<rparr> \<in> set (aggregateYear movies_decade 2000)"
    by code_simp
  from bspec [OF aggregateYearRange_dominates m] m show ?thesis by simp
qed

section \<open>Target year 0\<close>

text \<open>
  C10, as the code has it. For every record set, also one with records of the year 0,
  the single-year tally and the trailing-window tally are empty when the target year
  is 0; and removing the records of the year 0 changes no single-year tally, whatever the
  target year. (The trailing-window tally is not in this statement: see the
  counterexample.)
\<close>

theorem aggregate_year0_sentinel:
  "aggregateYear movies 0 = [] \<and> aggregateYearRange movies 0 = []
   \<and> aggregateYear movies y = aggregateYear (filter (\<lambda>m. year m \<noteq> 0) movies) y"
proof -
  have "aggregateYear movies y = aggregateYear (filter (\<lambda>m. year m \<noteq> 0) movies) y"
  proof (cases "y = 0")
    case True
    then show ?thesis by (simp add: aggregateYear_def)
  next
    case False
    then have f: "filter (\<lambda>m. year m \<noteq> 0 \<and> year m = y) movies
        = filter (\<lambda>m. year m = y) movies"
      by (auto intro: filter_cong)
    have e: "tally [] = []"
      by (simp add: tally_def sort_by_count_desc_def d3_rollup_def d3_group_def)
    show ?thesis
    proof (cases "filter (\<lambda>m. year m \<noteq> 0) movies = []")
      case True
      then have "filter (\<lambda>m. year m \<noteq> 0 \<and> year m = y) movies = []"
        by (auto simp: filter_empty_conv)
      then have "filter (\<lambda>m. year m = y) movies = []"
        using f by simp
      with True show ?thesis by (simp add: aggregateYear_def e)
    next
      case nonempty: False
      then have "movies \<noteq> []" by auto
      with nonempty False show ?thesis by (simp add: aggregateYear_def f)
    qed
  qed
  then show ?thesis by (simp add: aggregateYear_def aggregateYearRange_def)
qed

text \<open>C10 as stated fails for the trailing window: with a record of the year 0 and one of
  the year 5, the window ending at 5 counts the label of the year-0 record.\<close>

theorem aggregateYearRange_year0_counterexample:
  "aggregateYearRange movies_year0 5 =
     [\<lparr>genre = ''Action'', count = 1\<rparr>, \<lparr>genre = ''Comedy'', count = 1\<rparr>]
   \<and> aggregateYearRange (filter (\<lambda>m. year m \<noteq> 0) movies_year0) 5 =
     [\<lparr>genre = ''Comedy'', count = 1\<rparr>]"
  by code_simp

section \<open>The scroll tracker picks the nearest step\<close>

lemma visit_scan:
  assumes "steps \<noteq> []"
  shows "\<exists>i<length steps.
           foldl (visit (h / 2)) (None, None) steps
             = (Some (steps ! i), Some (midpoint_distance h (steps ! i)))
         \<and> (\<forall>j<length steps. midpoint_distance h (steps ! i) \<le> midpoint_distance h (steps ! j))
         \<and> (\<forall>j<i. midpoint_distance h (steps ! i) < midpoint_distance h (steps ! j))"
  using assms
proof (induction steps rule: rev_induct)
  case Nil
  then show ?case by simp
next
  case (snoc x xs)
  show ?case
  proof (cases "xs = []")
    case True
    then show ?thesis
      by (simp add: visit_def midpoint_distance_def)
  next
    case False
    from snoc.IH[OF False] obtain i where i: "i < length xs"
      and f: "foldl (visit (h / 2)) (None, None) xs
             = (Some (xs ! i), Some (midpoint_distance h (xs ! i)))"
      and mn: "\<forall>j<length xs. midpoint_distance h (xs ! i) \<le> midpoint_distance h (xs ! j)"
      and fst: "\<forall>j<i. midpoint_distance h (xs ! i) < midpoint_distance h (xs ! j)"
      by blast
    show ?thesis
    proof (cases "midpoint_distance h x < midpoint_distance h (xs ! i)")
      case True
      have "foldl (visit (h / 2)) (None, None) (xs @ [x])
             = (Some x, Some (midpoint_distance h x))"
        using True by (simp add: f visit_def midpoint_distance_def)
      moreover have "\<forall>j<length (xs @ [x]). midpoint_distance h x \<le> midpoint_distance h ((xs @ [x]) ! j)"
        using True mn by (fastforce simp: nth_append less_Suc_eq)
      moreover have "\<forall>j<length xs. midpoint_distance h x < midpoint_distance h ((xs @ [x]) ! j)"
        using True mn by (fastforce simp: nth_append)
      ultimately show ?thesis
        by (intro exI[of _ "length xs"]) simp
    next
      case nless: False
      have "foldl (visit (h / 2)) (None, None) (xs @ [x])
             = (Some (xs ! i), Some (midpoint_distance h (xs ! i)))"
        using nless by (simp add: f visit_def midpoint_distance_def)
      moreover have "\<forall>j<length (xs @ [x]). midpoint_distance h (xs ! i) \<le> midpoint_distance h ((xs @ [x]) ! j)"
        using nless mn by (auto simp: nth_append less_Suc_eq)
      moreover have "\<forall>j<i. midpoint_distance h (xs ! i) < midpoint_distance h ((xs @ [x]) ! j)"
        using fst i by (auto simp: nth_append)
      ultimately show ?thesis
        using i by (intro exI[of _ i]) (simp add: nth_append)
    qed
  qed
qed

text \<open>
  C7. For every non-empty list of steps (in document order) the tracker selects a step
  whose midpoint is at the smallest distance from the viewport's midpoint, the first such
  step in document order (every earlier step is strictly farther), and the current year
  becomes that step's year (it stays as it is when the step shows no year). With three
  steps of the years 1990, 2000 and 2010 of which the step of 2000 is strictly the
  nearest, the current year becomes 2000.
\<close>

theorem findVisibleYear_nearest:
  assumes "steps \<noteq> []"
  shows "(\<exists>i<length steps.
            closest_step steps (h / 2) = Some (steps ! i)
          \<and> (\<forall>j<length steps. midpoint_distance h (steps ! i) \<le> midpoint_distance h (steps ! j))
          \<and> (\<forall>j<i. midpoint_distance h (steps ! i) < midpoint_distance h (steps ! j))
          \<and> findVisibleYear steps h cur
              = (case header_year (steps ! i) of None \<Rightarrow> cur | Some y \<Rightarrow> y))
       \<and> (\<forall>s1 s2 s3. steps = [s1, s2, s3]
            \<and> header_year s1 = Some 1990 \<and> header_year s2 = Some 2000 \<and> header_year s3 = Some 2010
            \<and> midpoint_distance h s2 < midpoint_distance h s1
            \<and> midpoint_distance h s2 < midpoint_distance h s3
            \<longrightarrow> findVisibleYear steps h cur = 2000)"
proof -
  from visit_scan[OF assms, of h] obtain i where i: "i < length steps"
    and f: "foldl (visit (h / 2)) (None, None) steps
             = (Some (steps ! i), Some (midpoint_distance h (steps ! i)))"
    and mn: "\<forall>j<length steps. midpoint_distance h (steps ! i) \<le> midpoint_distance h (steps ! j)"
    and fst: "\<forall>j<i. midpoint_distance h (steps ! i) < midpoint_distance h (steps ! j)"
    by blast
  have c: "closest_step steps (h / 2) = Some (steps ! i)"
    by (simp add: closest_step_def f)
  have y: "findVisibleYear steps h cur = (case header_year (steps ! i) of None \<Rightarrow> cur | Some y \<Rightarrow> y)"
    using assms by (simp add: findVisibleYear_def c split: option.splits)
  have ex: "findVisibleYear steps h cur = 2000"
    if s: "steps = [s1, s2, s3]"
      and hy: "header_year s2 = Some 2000"
      and d1: "midpoint_distance h s2 < midpoint_distance h s1"
      and d3: "midpoint_distance h s2 < midpoint_distance h s3"
    for s1 s2 s3
  proof -
    from i s have "i = 0 \<or> i = 1 \<or> i = 2" by auto
    moreover from mn s have le: "midpoint_distance h (steps ! i) \<le> midpoint_distance h s2"
      by (auto dest: spec[of _ 1])
    have "i \<noteq> 0"
    proof
      assume "i = 0"
      with le s d1 show False by simp
    qed
    moreover have "i \<noteq> 2"
    proof
      assume "i = 2"
      with le s d3 show False by simp
    qed
    ultimately have "i = 1" by blast
    with y s hy show ?thesis by simp
  qed
  from i c mn fst y ex show ?thesis by blast
qed

theorem findVisibleYear_nearest_witness:
  "steps_example \<noteq> [] \<and> findVisibleYear steps_example 700 0 = 2000"
proof -
  have ne: "steps_example \<noteq> []" by (simp add: steps_example_def)
  have d: "midpoint_distance 700 (steps_example ! 1) < midpoint_distance 700 (steps_example ! 0)"
    "midpoint_distance 700 (steps_example ! 1) < midpoint_distance 700 (steps_example ! 2)"
    by (simp_all add: midpoint_distance_def steps_example_def)
  have "findVisibleYear steps_example 700 0 = 2000"
    using conjunct2 [OF findVisibleYear_nearest [OF ne, of 700 0]] d
    by (simp add: steps_example_def)
  with ne show ?thesis by simp
qed

section \<open>The scroll offset stays within the content\<close>

lemma handle_maxScroll: "maxScroll (handle s e) = maxScroll s"
  by (cases e) (simp_all add: Let_def)

lemma handle_in_extent:
  assumes "0 \<le> maxScroll s" and "in_extent s"
  shows "in_extent (handle s e)"
  using assms by (cases e) (auto simp: in_extent_def Let_def)

lemma run_in_extent:
  assumes "0 \<le> maxScroll s" and "in_extent s"
  shows "in_extent (foldl handle s es) \<and> maxScroll (foldl handle s es) = maxScroll s"
  using assms
proof (induction es arbitrary: s)
  case Nil
  then show ?case by simp
next
  case (Cons e es)
  have "0 \<le> maxScroll (handle s e)" "in_extent (handle s e)"
    using Cons.prems by (simp_all add: handle_maxScroll handle_in_extent)
  from Cons.IH[OF this] show ?case by (simp add: handle_maxScroll)
qed

lemma createBars_maxScroll: "maxScroll (createBars md s) = real (length md) * 150 - 1200"
  by (simp add: createBars_def)

lemma createBars_scrollOffset: "scrollOffset (createBars md s) = scrollOffset s"
  by (simp add: createBars_def)

text \<open>
  Two bounds that every handler keeps, whatever the mapping: the offset never exceeds
  \<open>max 0 maxScroll\<close>; and every event but ArrowRight keeps the offset at or above 0 (the
  drag handler and ArrowLeft apply \<open>Math.max(0, ...)\<close>, ArrowRight only \<open>Math.min\<close>).
\<close>

lemma offset_upper_bound:
  assumes "scrollOffset s \<le> max 0 (maxScroll s)"
  shows "scrollOffset (handle s e) \<le> max 0 (maxScroll (handle s e))"
  using assms by (cases e) (auto simp: Let_def)

lemma offset_lower_bound:
  assumes "e \<noteq> KeyDown ''ArrowRight''" and "0 \<le> scrollOffset s"
  shows "0 \<le> scrollOffset (handle s e)"
  using assms by (cases e) (auto simp: Let_def)

text \<open>
  With at least eight categories \<open>maxScroll\<close> (150 per category minus the viewport width of
  1200) is not negative, and then, starting from offset 0, the offset stays within
  \<open>0 \<le> scrollOffset \<le> maxScroll\<close> after every sequence of events, before the bars are
  created (\<open>maxScroll\<close> is 0 then) and after.
\<close>

lemma scroll_within_extent:
  assumes "8 \<le> length movieData"
  shows "in_extent (foldl handle init_scene before)
       \<and> in_extent (foldl handle (createBars movieData (foldl handle init_scene before)) after)"
proof -
  have i0: "in_extent init_scene" "0 \<le> maxScroll init_scene"
    by (simp_all add: in_extent_def init_scene_def)
  let ?s0 = "foldl handle init_scene before"
  from run_in_extent[OF i0(2) i0(1), of before]
  have s0: "scrollOffset ?s0 = 0"
    by (simp add: in_extent_def init_scene_def)
  from assms have "8 \<le> real (length movieData)" by simp
  then have m: "0 \<le> maxScroll (createBars movieData ?s0)"
    by (simp add: createBars_maxScroll)
  then have "in_extent (createBars movieData ?s0)"
    by (simp add: in_extent_def createBars_scrollOffset s0)
  from run_in_extent[OF m this] run_in_extent[OF i0(2) i0(1), of before]
  show ?thesis by simp
qed

lemma scroll_within_extent_eight:
  "in_extent (foldl handle (createBars eight_genres (foldl handle init_scene [KeyDown ''ArrowRight'']))
        [KeyDown ''ArrowRight'', KeyDown ''ArrowRight'', MouseDown 100, MouseMove 300,
         KeyDown ''ArrowLeft'', MouseUp])"
proof -
  have l: "8 \<le> length eight_genres" by (simp add: eight_genres_def)
  from scroll_within_extent [OF l] show ?thesis by blast
qed

text \<open>
  C8 fails in the code, on the fallback data of \<open>loadSummerMoviesData\<close>. The claim is that
  every drag and key update keeps \<open>0 \<le> scrollOffset \<le> maxScroll\<close>. With the six categories
  of the fallback data \<open>createBars\<close> sets \<open>maxScroll\<close> to \<open>-300\<close>; from offset 0, ArrowRight
  sets the offset to \<open>Math.min(150, -300) = -300\<close>, below 0, while ArrowLeft and a drag to
  the left from the same state leave it at 0.
\<close>

theorem arrow_right_below_zero:
  "scrollOffset (createBars sample_data init_scene) = 0
   \<and> maxScroll (createBars sample_data init_scene) = - 300
   \<and> scrollOffset (handle (createBars sample_data init_scene) (KeyDown ''ArrowRight'')) = - 300
   \<and> \<not> in_extent (handle (createBars sample_data init_scene) (KeyDown ''ArrowRight''))
   \<and> scrollOffset (handle (createBars sample_data init_scene) (KeyDown ''ArrowLeft'')) = 0
   \<and> scrollOffset (foldl handle (createBars sample_data init_scene) [MouseDown 100, MouseMove 50]) = 0"
  by (simp add: createBars_def sample_data_def init_scene_def in_extent_def)

section \<open>The co-occurrence matrix\<close>

lemma set_foldl_set_add: "set (foldl set_add s xs) = set s \<union> set xs"
  by (induction xs arbitrary: s) (auto simp: set_add_def)

lemma set_allGenres_aux:
  "set (foldl (\<lambda>s m. foldl set_add s (genres m)) s0 movies) = set s0 \<union> set (concat (map genres movies))"
  by (induction movies arbitrary: s0) (auto simp: set_foldl_set_add)

lemma set_allGenres: "set (allGenres movies) = set (concat (map genres movies))"
  by (simp add: allGenres_def set_allGenres_aux)

lemma set_heatmap_genres: "set (heatmap_genres movies) = set (concat (map genres movies))"
  by (simp add: heatmap_genres_def set_allGenres)


lemma get_prop_plain:
  assumes "x \<notin> set prototype_names"
  shows "get_prop obj x = (case obj x of Some v \<Rightarrow> v | None \<Rightarrow> Undefined)"
  using assms by (simp add: get_prop_def prototype_names_def split: option.splits)

lemma count_genre_counted:
  assumes "x \<notin> set prototype_names" and "counted t x"
  shows "counted (count_genre t g) x
       \<and> count_of (count_genre t g) x = count_of t x + (if g = x then 1 else 0)"
proof (cases "g = x")
  case True
  from assms(1) have np: "x \<noteq> ''__proto__''" by (simp add: prototype_names_def)
  from assms(2) consider "t x = None" | n where "t x = Some (Number n)"
    by (auto simp: counted_def)
  then show ?thesis
  proof cases
    case 1
    then show ?thesis
      using True np by (simp add: count_genre_def set_prop_def get_prop_plain[OF assms(1)]
          or_zero_def counted_def count_of_def)
  next
    case 2
    then show ?thesis
      using True np by (simp add: count_genre_def set_prop_def get_prop_plain[OF assms(1)]
          or_zero_def counted_def count_of_def)
  qed
next
  case False
  then have "count_genre t g x = t x"
    by (simp add: count_genre_def set_prop_def)
  with False assms(2) show ?thesis
    by (simp add: counted_def count_of_def)
qed

lemma totals_inner:
  assumes "x \<notin> set prototype_names" and "counted t x"
  shows "counted (foldl count_genre t gs) x
       \<and> count_of (foldl count_genre t gs) x = count_of t x + count_list gs x"
  using assms(2)
proof (induction gs arbitrary: t)
  case Nil
  then show ?case by simp
next
  case (Cons g gs)
  from count_genre_counted[OF assms(1) Cons.prems, of g]
  have c: "counted (count_genre t g) x"
    and v: "count_of (count_genre t g) x = count_of t x + (if g = x then 1 else 0)"
    by simp_all
  from Cons.IH[OF c] v show ?case by simp
qed

lemma totals_outer:
  assumes "x \<notin> set prototype_names" and "counted t x"
  shows "counted (foldl (\<lambda>totals m. foldl count_genre totals (genres m)) t movies) x
       \<and> count_of (foldl (\<lambda>totals m. foldl count_genre totals (genres m)) t movies) x
           = count_of t x + count_list (concat (map genres movies)) x"
  using assms(2)
proof (induction movies arbitrary: t)
  case Nil
  then show ?case by simp
next
  case (Cons m movies)
  from totals_inner[OF assms(1) Cons.prems, of "genres m"]
  have c: "counted (foldl count_genre t (genres m)) x"
    and v: "count_of (foldl count_genre t (genres m)) x = count_of t x + count_list (genres m) x"
    by simp_all
  from Cons.IH[OF c] v show ?case by simp
qed

lemma genreTotals_count:
  assumes "x \<notin> set prototype_names"
  shows "or_zero (get_prop (genreTotals movies) x)
           = Number (count_list (concat (map genres movies)) x)"
proof -
  have e: "counted Map.empty x" "count_of Map.empty x = 0"
    by (simp_all add: counted_def count_of_def)
  from totals_outer[OF assms e(1), of movies] e(2)
  have c: "counted (genreTotals movies) x"
    and v: "count_of (genreTotals movies) x = count_list (concat (map genres movies)) x"
    by (simp_all add: genreTotals_def)
  from c consider "genreTotals movies x = None" | n where "genreTotals movies x = Some (Number n)"
    by (auto simp: counted_def)
  then show ?thesis
  proof cases
    case 1
    with v show ?thesis
      by (simp add: get_prop_plain[OF assms] or_zero_def count_of_def)
  next
    case 2
    with v show ?thesis
      by (simp add: get_prop_plain[OF assms] or_zero_def count_of_def)
  qed
qed

lemma get_set_prop:
  "get_prop (set_prop row h v) b = (if b = h \<and> h \<noteq> ''__proto__'' then v else get_prop row b)"
  by (simp add: get_prop_def set_prop_def)

lemma row_of_store_row:
  assumes "row_of matrix g = Some r"
  shows "row_of (store_row matrix g row) a = (if a = g then Some row else row_of matrix a)"
  using assms by (auto simp: row_of_def store_row_def split: option.splits if_splits)

lemma set_cell_at:
  assumes "row_of matrix g = Some r"
  shows "\<exists>m'. set_cell matrix g h v = Some m'
           \<and> (\<forall>a b. matrix_at m' a b =
                (if a = g \<and> b = h \<and> h \<noteq> ''__proto__'' then Some v else matrix_at matrix a b))"
  using assms
  by (simp add: set_cell_def matrix_at_def row_of_store_row[OF assms] get_set_prop)

lemma incr_cell_at:
  assumes "matrix_at matrix g h = Some v"
  shows "\<exists>m'. incr_cell matrix g h = Some m'
           \<and> (\<forall>a b. matrix_at m' a b =
                (if a = g \<and> b = h \<and> h \<noteq> ''__proto__'' then Some (increment v)
                 else matrix_at matrix a b))"
proof -
  from assms obtain r where r: "row_of matrix g = Some r" and v: "get_prop r h = v"
    by (auto simp: matrix_at_def split: option.splits)
  then show ?thesis
    by (simp add: incr_cell_def matrix_at_def row_of_store_row[OF r] get_set_prop)
qed

lemma matrix_at_row: "matrix_at matrix g x \<noteq> None \<longleftrightarrow> row_of matrix g \<noteq> None"
  by (simp add: matrix_at_def split: option.splits)

lemma fill_row:
  assumes "row_of matrix g \<noteq> None"
  shows "\<exists>m'. foldM (\<lambda>m h. set_cell m g h v) matrix hs = Some m'
           \<and> (\<forall>a b. matrix_at m' a b =
                (if a = g \<and> b \<in> set hs \<and> b \<noteq> ''__proto__'' then Some v else matrix_at matrix a b))"
  using assms
proof (induction hs arbitrary: matrix)
  case Nil
  then show ?case by simp
next
  case (Cons h hs)
  from Cons.prems obtain r where r: "row_of matrix g = Some r" by auto
  from set_cell_at[OF r, of h v] obtain m1 where m1: "set_cell matrix g h v = Some m1"
    and at1: "\<And>a b. matrix_at m1 a b =
                (if a = g \<and> b = h \<and> h \<noteq> ''__proto__'' then Some v else matrix_at matrix a b)"
    by blast
  have "matrix_at m1 g h \<noteq> None"
    using r matrix_at_row[of matrix g h] by (auto simp: at1)
  then have "row_of m1 g \<noteq> None" using matrix_at_row by blast
  from Cons.IH[OF this] obtain m' where m': "foldM (\<lambda>m h. set_cell m g h v) m1 hs = Some m'"
    and at': "\<And>a b. matrix_at m' a b =
                (if a = g \<and> b \<in> set hs \<and> b \<noteq> ''__proto__'' then Some v else matrix_at m1 a b)"
    by blast
  show ?case
    by (rule exI[of _ m']) (auto simp: m1 m' at' at1)
qed

lemma assign_row_at:
  assumes "g \<noteq> ''__proto__''"
  shows "row_of (assign_row matrix g) a = (if a = g then Some Map.empty else row_of matrix a)"
  using assms by (auto simp: assign_row_def row_of_def split: option.splits)

lemma init_row_at:
  assumes "g \<noteq> ''__proto__''"
  shows "\<exists>m'. init_row gs matrix g = Some m'
           \<and> (\<forall>b. b \<in> set gs \<and> b \<noteq> ''__proto__'' \<longrightarrow> matrix_at m' g b = Some (Number 0))
           \<and> (\<forall>a b. a \<noteq> g \<longrightarrow> matrix_at m' a b = matrix_at matrix a b)"
proof -
  have r: "row_of (assign_row matrix g) g \<noteq> None"
    by (simp add: assign_row_at[OF assms])
  have o: "matrix_at (assign_row matrix g) a b = matrix_at matrix a b" if "a \<noteq> g" for a b
    using that by (simp add: matrix_at_def assign_row_at[OF assms])
  from fill_row[OF r, of "Number 0" gs] obtain m' where
    m': "foldM (\<lambda>m h. set_cell m g h (Number 0)) (assign_row matrix g) gs = Some m'"
    and at: "\<And>a b. matrix_at m' a b =
                (if a = g \<and> b \<in> set gs \<and> b \<noteq> ''__proto__'' then Some (Number 0)
                 else matrix_at (assign_row matrix g) a b)"
    by blast
  show ?thesis
    by (rule exI[of _ m']) (simp add: init_row_def m' at o)
qed

lemma init_rows_at:
  assumes "''__proto__'' \<notin> set gs'" and "''__proto__'' \<notin> set gs"
  shows "\<exists>m'. foldM (init_row gs) matrix gs' = Some m'
           \<and> (\<forall>a\<in>set gs'. \<forall>b\<in>set gs. matrix_at m' a b = Some (Number 0))"
  using assms(1)
proof (induction gs' arbitrary: matrix)
  case Nil
  then show ?case by simp
next
  case (Cons g gs')
  then have g: "g \<noteq> ''__proto__''" and rest: "''__proto__'' \<notin> set gs'" by auto
  from init_row_at[OF g, of gs matrix] obtain m1 where m1: "init_row gs matrix g = Some m1"
    and z1: "\<And>b. b \<in> set gs \<Longrightarrow> b \<noteq> ''__proto__'' \<Longrightarrow> matrix_at m1 g b = Some (Number 0)"
    by blast
  from Cons.IH[OF rest, of m1] obtain m' where m': "foldM (init_row gs) m1 gs' = Some m'"
    and z': "\<forall>a\<in>set gs'. \<forall>b\<in>set gs. matrix_at m' a b = Some (Number 0)"
    by blast
  have keep: "matrix_at m' g b = Some (Number 0)" if "b \<in> set gs" "g \<notin> set gs'" for b
  proof -
    have "\<And>m m2. foldM (init_row gs) m gs' = Some m2 \<Longrightarrow> g \<notin> set gs'
            \<Longrightarrow> ''__proto__'' \<notin> set gs' \<Longrightarrow> matrix_at m2 g b = matrix_at m g b"
    proof (induction gs')
      case Nil
      then show ?case by simp
    next
      case (Cons x xs)
      then have x: "x \<noteq> ''__proto__''" "x \<noteq> g" by auto
      from init_row_at[OF x(1), of gs m] obtain mx where mx: "init_row gs m x = Some mx"
        and o: "\<And>a b. a \<noteq> x \<Longrightarrow> matrix_at mx a b = matrix_at m a b"
        by blast
      from Cons.prems(1) mx have "foldM (init_row gs) mx xs = Some m2" by simp
      from Cons.IH[OF this] Cons.prems(2,3) have "matrix_at m2 g b = matrix_at mx g b" by simp
      with o[of g b] x(2) show ?case by simp
    qed
    from this[OF m' that(2) rest] z1[OF that(1)] assms(2) that(1) show ?thesis by auto
  qed
  show ?case
  proof (rule exI[of _ m'], intro conjI ballI)
    show "foldM (init_row gs) matrix (g # gs') = Some m'" by (simp add: m1 m')
  next
    fix a b assume "a \<in> set (g # gs')" "b \<in> set gs"
    then show "matrix_at m' a b = Some (Number 0)"
      using z' keep by (cases "a \<in> set gs'") auto
  qed
qed

lemma init_matrix_at:
  assumes "''__proto__'' \<notin> set gs"
  shows "\<exists>m0. init_matrix gs = Some m0
           \<and> (\<forall>a\<in>set gs. \<forall>b\<in>set gs. matrix_at m0 a b = Some (Number 0))"
  unfolding init_matrix_def by (rule init_rows_at[OF assms assms])

lemma set_diagonal_fold:
  assumes "\<forall>g\<in>set gs. row_of matrix g \<noteq> None" and "''__proto__'' \<notin> set gs"
  shows "\<exists>m'. foldM (set_diagonal totals) matrix gs = Some m'
           \<and> (\<forall>a b. matrix_at m' a b =
                 (if a = b \<and> a \<in> set gs then Some (or_zero (get_prop totals a))
                  else matrix_at matrix a b))"
  using assms
proof (induction gs arbitrary: matrix)
  case Nil
  then show ?case by simp
next
  case (Cons g gs)
  from Cons.prems obtain r where r: "row_of matrix g = Some r" and g: "g \<noteq> ''__proto__''"
    by auto
  from set_cell_at[OF r, of g "or_zero (get_prop totals g)"]
  obtain m1 where m1: "set_diagonal totals matrix g = Some m1"
    and at1: "\<And>a b. matrix_at m1 a b =
       (if a = g \<and> b = g then Some (or_zero (get_prop totals g)) else matrix_at matrix a b)"
    using g by (auto simp: set_diagonal_def)
  have "\<forall>g'\<in>set gs. row_of m1 g' \<noteq> None"
  proof
    fix g' assume "g' \<in> set gs"
    with Cons.prems(1) have "row_of matrix g' \<noteq> None" by simp
    then have "matrix_at matrix g' g' \<noteq> None" using matrix_at_row by blast
    then have "matrix_at m1 g' g' \<noteq> None" by (simp add: at1)
    then show "row_of m1 g' \<noteq> None" using matrix_at_row by blast
  qed
  moreover from Cons.prems(2) have "''__proto__'' \<notin> set gs" by simp
  ultimately obtain m' where m': "foldM (set_diagonal totals) m1 gs = Some m'"
    and at': "\<And>a b. matrix_at m' a b =
       (if a = b \<and> a \<in> set gs then Some (or_zero (get_prop totals a))
        else matrix_at m1 a b)"
    using Cons.IH by blast
  show ?case
    by (rule exI[of _ m']) (auto simp: m1 m' at' at1)
qed

lemma represents_cong:
  assumes "represents K A matrix" and "\<And>g h. g \<in> K \<Longrightarrow> h \<in> K \<Longrightarrow> A g h = B g h"
  shows "represents K B matrix"
  using assms by (simp add: represents_def)

lemma incr_cell_represents:
  assumes "represents K A matrix" and "g \<in> K" and "h \<in> K" and "''__proto__'' \<notin> K"
  shows "\<exists>m'. incr_cell matrix g h = Some m'
           \<and> represents K (\<lambda>a b. A a b + (if a = g \<and> b = h then 1 else 0)) m'"
proof -
  from assms have "matrix_at matrix g h = Some (Number (A g h))" by (simp add: represents_def)
  from incr_cell_at[OF this] obtain m' where "incr_cell matrix g h = Some m'"
    and "\<And>a b. matrix_at m' a b =
           (if a = g \<and> b = h \<and> h \<noteq> ''__proto__'' then Some (increment (Number (A g h)))
            else matrix_at matrix a b)"
    by blast
  with assms(1,3,4) show ?thesis by (auto simp: represents_def)
qed

lemma pair_inner_represents:
  assumes "represents K A matrix" and "g1 \<in> K" and "set rest \<subseteq> K" and "''__proto__'' \<notin> K"
  shows "\<exists>m'. pair_inner matrix g1 rest = Some m'
           \<and> represents K (\<lambda>a b. A a b + (if a = g1 then count_list rest b else 0)
                                         + (if b = g1 then count_list rest a else 0)) m'"
  using assms
proof (induction rest arbitrary: matrix A)
  case Nil
  then show ?case by (auto elim: represents_cong)
next
  case (Cons g2 rest)
  then have g2: "g2 \<in> K" and rest: "set rest \<subseteq> K" by simp_all
  from incr_cell_represents[OF Cons.prems(1) Cons.prems(2) g2 Cons.prems(4)]
  obtain m1 where m1: "incr_cell matrix g1 g2 = Some m1"
    and r1: "represents K (\<lambda>a b. A a b + (if a = g1 \<and> b = g2 then 1 else 0)) m1"
    by blast
  from incr_cell_represents[OF r1 g2 Cons.prems(2) Cons.prems(4)]
  obtain m2 where m2: "incr_cell m1 g2 g1 = Some m2"
    and r2: "represents K (\<lambda>a b. A a b + (if a = g1 \<and> b = g2 then 1 else 0)
                                       + (if a = g2 \<and> b = g1 then 1 else 0)) m2"
    by blast
  from Cons.IH[OF r2 Cons.prems(2) rest Cons.prems(4)]
  obtain m' where m': "pair_inner m2 g1 rest = Some m'"
    and r': "represents K (\<lambda>a b. A a b + (if a = g1 \<and> b = g2 then 1 else 0)
                                       + (if a = g2 \<and> b = g1 then 1 else 0)
                                       + (if a = g1 then count_list rest b else 0)
                                       + (if b = g1 then count_list rest a else 0)) m'"
    by blast
  have "represents K (\<lambda>a b. A a b + (if a = g1 then count_list (g2 # rest) b else 0)
                                   + (if b = g1 then count_list (g2 # rest) a else 0)) m'"
    by (rule represents_cong[OF r']) auto
  then show ?case by (simp add: m1 m2 m')
qed

lemma pair_outer_represents:
  assumes "represents K A matrix" and "set gs \<subseteq> K" and "''__proto__'' \<notin> K"
  shows "\<exists>m'. pair_outer matrix gs = Some m'
           \<and> represents K (\<lambda>a b. A a b + pair_count gs a b + pair_count gs b a) m'"
  using assms
proof (induction gs arbitrary: matrix A)
  case Nil
  then show ?case by (auto elim: represents_cong)
next
  case (Cons g1 rest)
  then have g1: "g1 \<in> K" and rest: "set rest \<subseteq> K" by simp_all
  from pair_inner_represents[OF Cons.prems(1) g1 rest Cons.prems(3)]
  obtain m1 where m1: "pair_inner matrix g1 rest = Some m1"
    and r1: "represents K (\<lambda>a b. A a b + (if a = g1 then count_list rest b else 0)
                                       + (if b = g1 then count_list rest a else 0)) m1"
    by blast
  from Cons.IH[OF r1 rest Cons.prems(3)]
  obtain m' where m': "pair_outer m1 rest = Some m'"
    and r': "represents K (\<lambda>a b. A a b + (if a = g1 then count_list rest b else 0)
                                       + (if b = g1 then count_list rest a else 0)
                                       + pair_count rest a b + pair_count rest b a) m'"
    by blast
  have "represents K (\<lambda>a b. A a b + pair_count (g1 # rest) a b + pair_count (g1 # rest) b a) m'"
    by (rule represents_cong[OF r']) auto
  then show ?case by (simp add: m1 m')
qed

lemma pairs_fold_represents:
  assumes "represents K A matrix" and "\<forall>m\<in>set movies. set (genres m) \<subseteq> K"
    and "''__proto__'' \<notin> K"
  shows "\<exists>m'. foldM (\<lambda>matrix m. pair_outer matrix (genres m)) matrix movies = Some m'
           \<and> represents K (\<lambda>a b. A a b + pairs_total movies a b) m'"
  using assms
proof (induction movies arbitrary: matrix A)
  case Nil
  then show ?case by (auto simp: pairs_total_def elim: represents_cong)
next
  case (Cons m movies)
  then have sub: "set (genres m) \<subseteq> K" and rest: "\<forall>m\<in>set movies. set (genres m) \<subseteq> K"
    by simp_all
  from pair_outer_represents[OF Cons.prems(1) sub Cons.prems(3)]
  obtain m1 where m1: "pair_outer matrix (genres m) = Some m1"
    and r1: "represents K (\<lambda>a b. A a b + pair_count (genres m) a b + pair_count (genres m) b a) m1"
    by blast
  from Cons.IH[OF r1 rest Cons.prems(3)]
  obtain m' where m': "foldM (\<lambda>matrix m. pair_outer matrix (genres m)) m1 movies = Some m'"
    and r': "represents K (\<lambda>a b. A a b + pair_count (genres m) a b + pair_count (genres m) b a
                                       + pairs_total movies a b) m'"
    by blast
  have "represents K (\<lambda>a b. A a b + pairs_total (m # movies) a b) m'"
    by (rule represents_cong[OF r']) (simp add: pairs_total_def)
  then show ?case by (simp add: m1 m')
qed

lemma coMatrix_represents:
  assumes "plain_labels movies"
  shows "\<exists>matrix. coMatrix movies = Some matrix
     \<and> represents (set (concat (map genres movies)))
          (\<lambda>a b. (if a = b then count_list (concat (map genres movies)) a else 0)
                  + pairs_total movies a b) matrix"
proof -
  let ?K = "set (concat (map genres movies))"
  let ?gs = "heatmap_genres movies"
  have K: "set ?gs = ?K" by (rule set_heatmap_genres)
  from assms have plain: "\<And>x. x \<in> ?K \<Longrightarrow> x \<notin> set prototype_names"
    unfolding plain_labels_def by blast
  have np: "''__proto__'' \<notin> ?K"
  proof
    assume "''__proto__'' \<in> ?K"
    from plain[OF this] show False by (simp add: prototype_names_def)
  qed
  have npg: "''__proto__'' \<notin> set ?gs" unfolding K by (rule np)
  from init_matrix_at[OF npg] obtain m0 where m0: "init_matrix ?gs = Some m0"
    and z: "\<forall>a\<in>set ?gs. \<forall>b\<in>set ?gs. matrix_at m0 a b = Some (Number 0)"
    by blast
  have "\<forall>g\<in>set ?gs. row_of m0 g \<noteq> None"
  proof
    fix g assume "g \<in> set ?gs"
    with z have "matrix_at m0 g g \<noteq> None" by simp
    then show "row_of m0 g \<noteq> None" using matrix_at_row by blast
  qed
  from set_diagonal_fold[OF this npg, of "genreTotals movies"]
  obtain m1 where m1: "foldM (set_diagonal (genreTotals movies)) m0 ?gs = Some m1"
    and at1: "\<And>a b. matrix_at m1 a b =
        (if a = b \<and> a \<in> set ?gs
         then Some (or_zero (get_prop (genreTotals movies) a))
         else matrix_at m0 a b)"
    by blast
  have r1: "represents ?K (\<lambda>a b. if a = b then count_list (concat (map genres movies)) a else 0) m1"
    unfolding represents_def
  proof (intro ballI)
    fix g h assume gh: "g \<in> ?K" "h \<in> ?K"
    then have "g \<in> set ?gs" "h \<in> set ?gs" by (simp_all only: K)
    with z have z0: "matrix_at m0 g h = Some (Number 0)" by blast
    show "matrix_at m1 g h = Some (Number (if g = h then count_list (concat (map genres movies)) g else 0))"
      using gh(1) z0 genreTotals_count[OF plain[OF gh(1)], of movies]
      by (auto simp add: at1 K simp del: set_concat)
  qed
  have "\<forall>m\<in>set movies. set (genres m) \<subseteq> ?K" by auto
  from pairs_fold_represents[OF r1 this np]
  obtain m' where "foldM (\<lambda>matrix m. pair_outer matrix (genres m)) m1 movies = Some m'"
    and "represents ?K (\<lambda>a b. (if a = b then count_list (concat (map genres movies)) a else 0)
                  + pairs_total movies a b) m'"
    by blast
  then show ?thesis
    by (simp add: coMatrix_def m0 m1)
qed

lemma pairs_total_sym: "pairs_total movies a b = pairs_total movies b a"
  by (simp add: pairs_total_def add.commute)

lemma count_list_distinct: "distinct xs \<Longrightarrow> count_list xs x = (if x \<in> set xs then 1 else 0)"
  by (induction xs) auto

lemma pair_count_distinct:
  "distinct gs \<Longrightarrow> pair_count gs a b + pair_count gs b a
     = (if a \<noteq> b \<and> a \<in> set gs \<and> b \<in> set gs then 1 else 0)"
  by (induction gs) (auto simp: count_list_distinct)

lemma pairs_total_distinct:
  assumes "\<forall>m\<in>set movies. distinct (genres m)"
  shows "pairs_total movies a b
     = (if a = b then 0
        else length (filter (\<lambda>m. a \<in> set (genres m) \<and> b \<in> set (genres m)) movies))"
  using assms unfolding pairs_total_def
  by (induction movies) (simp_all add: pair_count_distinct)

text \<open>
  On records whose categories are not names of \<open>Object.prototype\<close> the matrix is
  built without failure, every cell of two categories that appear in the records holds a
  number, and the matrix is symmetric there.
\<close>

lemma coMatrix_plain_symmetric:
  assumes "plain_labels movies"
  shows "\<exists>matrix. coMatrix movies = Some matrix
     \<and> (\<forall>g\<in>set (heatmap_genres movies). \<forall>h\<in>set (heatmap_genres movies).
           (\<exists>n. matrix_at matrix g h = Some (Number n))
           \<and> matrix_at matrix g h = matrix_at matrix h g)"
proof -
  from coMatrix_represents[OF assms] obtain matrix where m: "coMatrix movies = Some matrix"
    and r: "represents (set (concat (map genres movies)))
          (\<lambda>a b. (if a = b then count_list (concat (map genres movies)) a else 0)
                  + pairs_total movies a b) matrix"
    by blast
  have "(\<exists>n. matrix_at matrix g h = Some (Number n)) \<and> matrix_at matrix g h = matrix_at matrix h g"
    if "g \<in> set (heatmap_genres movies)" and "h \<in> set (heatmap_genres movies)" for g h
  proof -
    from that have "g \<in> set (concat (map genres movies))" "h \<in> set (concat (map genres movies))"
      by (simp_all only: set_heatmap_genres)
    with r have "matrix_at matrix g h = Some (Number ((if g = h then count_list (concat (map genres movies)) g else 0)
                  + pairs_total movies g h))"
      and "matrix_at matrix h g = Some (Number ((if h = g then count_list (concat (map genres movies)) h else 0)
                  + pairs_total movies h g))"
      unfolding represents_def by blast+
    then show ?thesis
      using pairs_total_sym[of movies g h] by auto
  qed
  with m show ?thesis by blast
qed

text \<open>
  On such records, when moreover no record lists a category twice, the diagonal holds the
  occurrences of the category in all records and a cell of two distinct categories holds
  the number of records that list both.
\<close>

lemma coMatrix_plain_counts:
  assumes "plain_labels movies" and "\<forall>m\<in>set movies. distinct (genres m)"
  shows "\<exists>matrix. coMatrix movies = Some matrix
     \<and> (\<forall>g\<in>set (heatmap_genres movies). \<forall>h\<in>set (heatmap_genres movies).
           matrix_at matrix g h
             = Some (Number (if g = h then total_occurrences movies g
                             else records_with_both movies g h)))"
proof -
  from coMatrix_represents[OF assms(1)] obtain matrix where m: "coMatrix movies = Some matrix"
    and r: "represents (set (concat (map genres movies)))
          (\<lambda>a b. (if a = b then count_list (concat (map genres movies)) a else 0)
                  + pairs_total movies a b) matrix"
    by blast
  have "matrix_at matrix g h
          = Some (Number (if g = h then total_occurrences movies g else records_with_both movies g h))"
    if "g \<in> set (heatmap_genres movies)" and "h \<in> set (heatmap_genres movies)" for g h
  proof -
    from that have "g \<in> set (concat (map genres movies))" "h \<in> set (concat (map genres movies))"
      by (simp_all only: set_heatmap_genres)
    with r have "matrix_at matrix g h = Some (Number ((if g = h then count_list (concat (map genres movies)) g else 0)
                  + pairs_total movies g h))"
      unfolding represents_def by blast
    then show ?thesis
      by (simp add: pairs_total_distinct[OF assms(2)] total_occurrences_def records_with_both_def)
  qed
  with m show ?thesis by blast
qed

lemma coMatrix_plain_example:
  "plain_labels movies_pairs \<and> plain_labels movies_repeat
   \<and> \<not> plain_labels movies_constructor \<and> \<not> plain_labels movies_proto"
  by code_simp

lemma heatmap_eval_pairs:
  "coMatrix_at movies_pairs ''Action'' ''Action'' = Some (Number 2)
   \<and> coMatrix_at movies_pairs ''Action'' ''Drama'' = Some (Number 1)
   \<and> coMatrix_at movies_pairs ''Drama'' ''Action'' = Some (Number 1)
   \<and> coMatrix_at movies_pairs ''Comedy'' ''Action'' = Some (Number 2)"
  by code_simp

text \<open>
  C3 fails in the code. The comments of the component give the diagonal as the total
  movies per genre and the other cells as co-occurrences. For the one record with the
  categories Action, Comedy, Comedy the pair loop meets the two occurrences of Comedy as
  a pair and adds 2 to the diagonal, which becomes 4 for 2 occurrences, and it counts
  the pair with Action once per occurrence, 2 for 1 record. For the one record with the
  category constructor, \<open>genreTotals[g] || 0\<close> reads the function inherited from
  \<open>Object.prototype\<close>, \<open>+ 1\<close> makes a string of it, and this string is the diagonal
  entry, where the category occurs once.
\<close>

theorem coMatrix_diagonal_defect:
  "coMatrix_at movies_repeat ''Comedy'' ''Comedy'' = Some (Number 4)
   \<and> total_occurrences movies_repeat ''Comedy'' = 2
   \<and> coMatrix_at movies_repeat ''Action'' ''Comedy'' = Some (Number 2)
   \<and> records_with_both movies_repeat ''Action'' ''Comedy'' = 1
   \<and> coMatrix_at movies_constructor ''constructor'' ''constructor''
        = Some (FunctionText ''constructor'' 1)
   \<and> total_occurrences movies_constructor ''constructor'' = 1"
  by code_simp

text \<open>
  C4 fails in the code. For the one record with the categories Action and \<open>__proto__\<close>,
  \<open>matrix['__proto__'] = {}\<close> sets the prototype of the matrix and adds no row, and
  every write to a cell \<open>row['__proto__']\<close> is dropped by the setter. The pair loop
  increments the cell (\<open>__proto__\<close>, Action) of the prototype object to 1, while the
  cell (Action, \<open>__proto__\<close>) still reads \<open>Object.prototype\<close>: the two cells differ.
\<close>

theorem coMatrix_proto_asymmetric:
  "coMatrix_at movies_proto ''Action'' ''__proto__'' = Some ObjectPrototype
   \<and> coMatrix_at movies_proto ''__proto__'' ''Action'' = Some (Number 1)
   \<and> coMatrix_at movies_proto ''Action'' ''__proto__''
        \<noteq> coMatrix_at movies_proto ''__proto__'' ''Action''
   \<and> ''Action'' \<in> set (heatmap_genres movies_proto)
   \<and> ''__proto__'' \<in> set (heatmap_genres movies_proto)"
  by code_simp

section \<open>The ranked-line trajectories\<close>

lemma insort_key_map:
  "insort_key f (g x) (map g xs) = map g (insort_key (\<lambda>a. f (g a)) x xs)"
  by (induction xs) simp_all

lemma sort_key_map: "sort_key f (map g xs) = map g (sort_key (\<lambda>a. f (g a)) xs)"
  by (induction xs) (simp_all add: insort_key_map)

lemma year_entry_group:
  assumes "(Some y, vs) \<in> set (d3_group movies line_year)"
  shows "year_entry (Some y, vs) = year_row movies y"
proof -
  from d3_group_entry(1)[OF assms] have "vs = filter (\<lambda>m. line_year m = Some y) movies" .
  then show ?thesis
    by (simp add: year_entry_def year_row_def ranking_def line_labels_def)
qed

lemma valid_group_keys:
  assumes "valid_years movies"
  shows "None \<notin> set (map fst (d3_group movies line_year))"
  using assms d3_group_keys_set[of movies line_year] by (simp add: valid_years_def)

lemma year_entries:
  assumes "valid_years movies"
  shows "map year_entry (d3_group movies line_year)
     = map (\<lambda>k. year_row movies (the k)) (map fst (d3_group movies line_year))"
proof -
  have "year_entry kv = year_row movies (the (fst kv))"
    if "kv \<in> set (d3_group movies line_year)" for kv
  proof -
    obtain k vs where kv: "kv = (k, vs)" by (cases kv)
    with that valid_group_keys[OF assms] have "k \<noteq> None" by force
    then obtain y where "k = Some y" by auto
    with that kv show ?thesis by (simp add: year_entry_group)
  qed
  then show ?thesis by simp
qed

lemma group_years_sorted:
  assumes "valid_years movies"
  shows "map the (sort_key the (map fst (d3_group movies line_year))) = years_present movies"
proof -
  let ?keys = "map fst (d3_group movies line_year)"
  have none: "None \<notin> set ?keys" by (rule valid_group_keys[OF assms])
  have "inj_on the (set ?keys)"
  proof (rule inj_onI)
    fix a b assume "a \<in> set ?keys" "b \<in> set ?keys" "the a = the b"
    with none show "a = b" by (cases a; cases b) auto
  qed
  with d3_group_keys_distinct[of movies line_year] have d: "distinct (map the ?keys)"
    using distinct_map[of the ?keys] by blast
  have ks: "set ?keys = line_year ` set movies"
    using d3_group_keys_set[of movies line_year] by simp
  have "{x \<in> set ?keys. x \<noteq> None} = set ?keys"
    using none by (metis (mono_tags, lifting) Collect_cong Collect_mem_eq)
  then have "{x \<in> line_year ` set movies. x \<noteq> None} = set ?keys"
    by (simp only: ks)
  then have "Option.these (line_year ` set movies) = the ` set ?keys"
    unfolding Option.these_def by (simp only:)
  then have "set (map the ?keys) = Option.these (line_year ` set movies)"
    by (simp add: image_image)
  then have "years_present movies = sorted_list_of_set (set (map the ?keys))"
    by (simp add: years_present_def)
  also have "\<dots> = sort (remdups (map the ?keys))"
    by (rule sorted_list_of_set_sort_remdups)
  also have "\<dots> = sort (map the ?keys)"
    using d by (simp add: distinct_remdups_id)
  also have "\<dots> = map the (sort_key the ?keys)"
    using sort_key_map[of "\<lambda>x. x" the ?keys] by simp
  finally show ?thesis by simp
qed

lemma sorted_keys_some:
  assumes "None \<notin> set ks"
  shows "map (\<lambda>k. f (the k)) ks = map f (map the ks)"
  by simp

lemma yearData_rows:
  assumes "valid_years movies"
  shows "yearData (processedData engine_order movies) = map (year_row movies) (years_present movies)"
proof (cases "movies = []")
  case True
  then show ?thesis by (simp add: processedData_def years_present_def Option.these_def)
next
  case False
  let ?keys = "map fst (d3_group movies line_year)"
  let ?rows = "map (\<lambda>k. year_row movies (the k)) ?keys"
  have "map yd_year ?rows = map (\<lambda>k. Some (the k)) ?keys"
    by (simp add: year_row_def)
  then have none: "None \<notin> set (map yd_year ?rows)" by auto
  from False have "yearData (processedData engine_order movies)
      = sort_by_year engine_order (map year_entry (d3_group movies line_year))"
    by (simp add: processedData_def Let_def)
  also have "\<dots> = sort_by_year engine_order ?rows"
    by (simp only: year_entries[OF assms])
  also have "\<dots> = sort_key (\<lambda>yd. the (yd_year yd)) ?rows"
    using none unfolding sort_by_year_def by (simp only: if_True simp_thms)
  also have "\<dots> = map (\<lambda>k. year_row movies (the k))
                     (sort_key (\<lambda>k. the (yd_year (year_row movies (the k)))) ?keys)"
    by (rule sort_key_map)
  also have "(\<lambda>k. the (yd_year (year_row movies (the k)))) = the"
    by (simp add: year_row_def fun_eq_iff)
  also have "map (\<lambda>k. year_row movies (the k)) (sort_key the ?keys)
      = map (year_row movies) (map the (sort_key the ?keys))"
    by simp
  also have "map the (sort_key the ?keys) = years_present movies"
    by (rule group_years_sorted[OF assms])
  finally show ?thesis .
qed

lemma years_rows:
  assumes "valid_years movies"
  shows "years (processedData engine_order movies) = map Some (years_present movies)"
proof (cases "movies = []")
  case True
  then show ?thesis by (simp add: processedData_def years_present_def Option.these_def)
next
  case False
  then have "years (processedData engine_order movies)
      = map yd_year (yearData (processedData engine_order movies))"
    by (simp add: processedData_def Let_def)
  then show ?thesis
    by (simp add: yearData_rows[OF assms] comp_def year_row_def)
qed

lemma rank_in_pos: "rank_in g ds = Some r \<Longrightarrow> 0 < r"
  by (induction ds arbitrary: r) (auto split: if_splits)

lemma find_with_ranks:
  "(case find (\<lambda>t. genre t = g) (with_ranks (take 3 ds)) of
      Some entry \<Rightarrow> c + (4 - int (rank entry)) | None \<Rightarrow> c)
   = c + (case rank_in g ds of
            None \<Rightarrow> 0
          | Some r \<Rightarrow> if r = 1 then 3 else if r = 2 then 2 else if r = 3 then 1 else 0)"
proof (cases ds)
  case Nil
  then show ?thesis by (simp add: with_ranks_def)
next
  case (Cons a ds1)
  note c1 = this
  show ?thesis
  proof (cases ds1)
    case Nil
    with c1 show ?thesis by (simp add: with_ranks_def)
  next
    case (Cons b ds2)
    note c2 = this
    show ?thesis
    proof (cases ds2)
      case Nil
      with c1 c2 show ?thesis by (simp add: with_ranks_def upt_rec)
    next
      case (Cons d ds3)
      show ?thesis
      proof (cases "rank_in g ds3")
        case None
        with c1 c2 Cons show ?thesis by (simp add: with_ranks_def upt_rec)
      next
        case (Some r)
        from rank_in_pos[OF this] have "r \<noteq> 0" by simp
        with c1 c2 Cons Some show ?thesis by (simp add: with_ranks_def upt_rec)
      qed
    qed
  qed
qed

lemma add_point_row:
  "add_point g (c, ps) (year_row movies y)
     = (c + award movies y g, ps @ [\<lparr>pt_year = Some y, cumulative = c + award movies y g\<rparr>])"
proof -
  have "(case find (\<lambda>t. genre t = g) (top3 (year_row movies y)) of
           Some entry \<Rightarrow> c + (4 - int (rank entry)) | None \<Rightarrow> c) = c + award movies y g"
    unfolding award_def by (simp add: year_row_def find_with_ranks)
  then show ?thesis
    by (simp add: Let_def year_row_def)
qed

lemma filter_le_strict_sorted:
  assumes "sorted_wrt (<) (pre @ y # ys)"
  shows "filter (\<lambda>y'. y' \<le> (y::int)) (pre @ y # ys) = pre @ [y]"
proof -
  from assms have "\<forall>x\<in>set pre. x < y" and "\<forall>z\<in>set ys. y < z"
    by (auto simp: sorted_wrt_append)
  then have "filter (\<lambda>y'. y' \<le> y) pre = pre" and "filter (\<lambda>y'. y' \<le> y) ys = []"
    by (auto simp: filter_empty_conv intro!: filter_True)
  then show ?thesis by simp
qed

lemma trajectory_aux:
  assumes "sorted_wrt (<) (pre @ suf)"
    and "c = sum_list (map (\<lambda>y. award movies y g) pre)"
  shows "snd (foldl (add_point g) (c, ps) (map (year_row movies) suf))
     = ps @ map (\<lambda>y. \<lparr>pt_year = Some y, cumulative =
                  sum_list (map (\<lambda>y'. award movies y' g) (filter (\<lambda>y'. y' \<le> y) (pre @ suf)))\<rparr>) suf"
  using assms
proof (induction suf arbitrary: pre c ps)
  case Nil
  then show ?case by simp
next
  case (Cons y ys)
  let ?a = "\<lambda>y'. award movies y' g"
  let ?pt = "\<lparr>pt_year = Some y, cumulative = c + ?a y\<rparr>"
  have s: "sorted_wrt (<) ((pre @ [y]) @ ys)" using Cons.prems(1) by simp
  have c: "c + ?a y = sum_list (map ?a (pre @ [y]))"
    using Cons.prems(2) by simp
  have f: "filter (\<lambda>y'. y' \<le> y) (pre @ y # ys) = pre @ [y]"
    by (rule filter_le_strict_sorted[OF Cons.prems(1)])
  have "snd (foldl (add_point g) (c, ps) (map (year_row movies) (y # ys)))
      = snd (foldl (add_point g) (c + ?a y, ps @ [?pt]) (map (year_row movies) ys))"
    by (simp only: list.map foldl_Cons add_point_row)
  also have "\<dots> = (ps @ [?pt]) @ map (\<lambda>y2. \<lparr>pt_year = Some y2, cumulative =
                  sum_list (map ?a (filter (\<lambda>y'. y' \<le> y2) ((pre @ [y]) @ ys)))\<rparr>) ys"
    by (rule Cons.IH[OF s c])
  also have "\<dots> = ps @ map (\<lambda>y2. \<lparr>pt_year = Some y2, cumulative =
                  sum_list (map ?a (filter (\<lambda>y'. y' \<le> y2) (pre @ y # ys)))\<rparr>) (y # ys)"
    by (simp only: list.map f c append_assoc append_Cons append_Nil)
  finally show ?case .
qed

lemma years_present_strict: "sorted_wrt (<) (years_present movies)"
  by (simp add: years_present_def strict_sorted_iff)

lemma trajectory_rows:
  "trajectory_of (map (year_row movies) (years_present movies)) g
     = map (\<lambda>y. \<lparr>pt_year = Some y, cumulative = awards_upto movies g y\<rparr>) (years_present movies)"
  using trajectory_aux[of "[]" "years_present movies" 0 movies g "[]"]
  by (simp add: trajectory_of_def awards_upto_def years_present_strict)

lemma genreTrajectories_rows:
  assumes "valid_years movies"
  shows "genreTrajectories (processedData engine_order movies)
     = map (\<lambda>g. map (\<lambda>y. \<lparr>pt_year = Some y, cumulative = awards_upto movies g y\<rparr>) (years_present movies))
         (chart_genres movies)"
proof (cases "movies = []")
  case True
  then show ?thesis by (simp add: processedData_def chart_genres_def)
next
  case False
  then have "genreTrajectories (processedData engine_order movies)
      = map (trajectory_of (yearData (processedData engine_order movies))) (chart_genres movies)"
    by (simp add: processedData_def Let_def)
  then show ?thesis
    by (simp add: yearData_rows[OF assms] trajectory_rows)
qed

lemma award_nonneg: "0 \<le> award movies y g"
  by (simp add: award_def split: option.splits)

lemma awards_upto_mono:
  assumes "y1 \<le> y2"
  shows "awards_upto movies g y1 \<le> awards_upto movies g y2"
  unfolding awards_upto_def sum_list_map_filter'
  using assms by (intro sum_list_mono) (auto simp: award_nonneg)

text \<open>
  On record sets with valid years the chart computes what the specification says: the
  years of the chart are the years present in the data, in chronological order; the entry
  of each year holds the first three of that year's ranking, with the ranks 1, 2, 3; that
  ranking is the tally of the year's labels; and the trajectory of each genre has one
  point per year, whose value is the sum of the genre's awards over the years up to and
  including that year.
\<close>

lemma processedData_valid_years:
  assumes "valid_years movies"
  shows "years (processedData engine_order movies) = map Some (years_present movies)
   \<and> yearData (processedData engine_order movies)
       = map (\<lambda>y. \<lparr>yd_year = Some y, top3 = with_ranks (take 3 (ranking movies y))\<rparr>)
           (years_present movies)
   \<and> reference_tally (line_labels movies y) (ranking movies y)
   \<and> genreTrajectories (processedData engine_order movies)
       = map (\<lambda>g. map (\<lambda>y. \<lparr>pt_year = Some y, cumulative = awards_upto movies g y\<rparr>)
                    (years_present movies))
           (chart_genres movies)"
proof -
  have "yearData (processedData engine_order movies)
       = map (\<lambda>y. \<lparr>yd_year = Some y, top3 = with_ranks (take 3 (ranking movies y))\<rparr>)
           (years_present movies)"
    unfolding yearData_rows[OF assms] by (simp add: year_row_def)
  moreover have "reference_tally (line_labels movies y) (ranking movies y)"
    unfolding ranking_def by (rule tally_is_reference)
  ultimately show ?thesis
    by (simp only: genreTrajectories_rows[OF assms] years_rows[OF assms] simp_thms)
qed

lemma processedData_valid_example:
  "valid_years movies_ranked
   \<and> years (processedData engine_order movies_ranked) = [Some 1999, Some 2001]
   \<and> genreTrajectories (processedData engine_order movies_ranked)
       = [[\<lparr>pt_year = Some 1999, cumulative = 3\<rparr>, \<lparr>pt_year = Some 2001, cumulative = 4\<rparr>],
          [\<lparr>pt_year = Some 1999, cumulative = 2\<rparr>, \<lparr>pt_year = Some 2001, cumulative = 2\<rparr>],
          [\<lparr>pt_year = Some 1999, cumulative = 0\<rparr>, \<lparr>pt_year = Some 2001, cumulative = 2\<rparr>],
          [\<lparr>pt_year = Some 1999, cumulative = 0\<rparr>, \<lparr>pt_year = Some 2001, cumulative = 3\<rparr>]]"
proof -
  have v: "valid_years movies_ranked" by code_simp
  have y: "years_present movies_ranked = [1999, 2001]"
    by code_simp
  have t: "map (\<lambda>g. map (\<lambda>y. \<lparr>pt_year = Some y, cumulative = awards_upto movies_ranked g y\<rparr>) [1999, 2001])
             (chart_genres movies_ranked)
       = [[\<lparr>pt_year = Some 1999, cumulative = 3\<rparr>, \<lparr>pt_year = Some 2001, cumulative = 4\<rparr>],
          [\<lparr>pt_year = Some 1999, cumulative = 2\<rparr>, \<lparr>pt_year = Some 2001, cumulative = 2\<rparr>],
          [\<lparr>pt_year = Some 1999, cumulative = 0\<rparr>, \<lparr>pt_year = Some 2001, cumulative = 2\<rparr>],
          [\<lparr>pt_year = Some 1999, cumulative = 0\<rparr>, \<lparr>pt_year = Some 2001, cumulative = 3\<rparr>]]"
    by code_simp
  from processedData_valid_years [OF v, of engine_order 1999] v y t show ?thesis
    by simp
qed

text \<open>
  On record sets with valid years the points of every trajectory follow the years present
  in strictly increasing order.
\<close>

lemma trajectories_chronological:
  assumes "valid_years movies"
  shows "\<forall>traj\<in>set (genreTrajectories (processedData engine_order movies)).
           map pt_year traj = map Some (years_present movies)"
    and "sorted_wrt (<) (years_present movies)"
  by (auto simp: genreTrajectories_rows[OF assms] comp_def years_present_strict)

text \<open>
  On every record set, also with invalid years and whatever order the engine picks among
  the entries, the cumulative value never decreases from one point of a trajectory to the
  next: every entry of \<open>top3\<close> has a rank of 1, 2 or 3.
\<close>

lemma year_entry_top3: "\<exists>ds. top3 (year_entry yg) = with_ranks (take 3 ds)"
  by (simp add: year_entry_def Let_def) blast

lemma add_point_grows:
  assumes "top3 yd = with_ranks (take 3 ds)"
  shows "\<exists>c'. c \<le> c' \<and> add_point g (c, ps) yd = (c', ps @ [\<lparr>pt_year = yd_year yd, cumulative = c'\<rparr>])"
proof -
  let ?a = "case rank_in g ds of
              None \<Rightarrow> 0
            | Some r \<Rightarrow> if r = 1 then 3 else if r = 2 then 2 else if r = 3 then 1 else (0::int)"
  have "0 \<le> ?a" by (simp split: option.splits)
  moreover have "add_point g (c, ps) yd = (c + ?a, ps @ [\<lparr>pt_year = yd_year yd, cumulative = c + ?a\<rparr>])"
    by (simp add: Let_def assms find_with_ranks)
  ultimately show ?thesis by simp
qed

lemma trajectory_sorted_aux:
  assumes "\<forall>yd\<in>set yds. \<exists>ds. top3 yd = with_ranks (take 3 ds)"
    and "sorted (map cumulative ps)" and "\<forall>p\<in>set ps. cumulative p \<le> c"
  shows "sorted (map cumulative (snd (foldl (add_point g) (c, ps) yds)))"
  using assms
proof (induction yds arbitrary: c ps)
  case Nil
  then show ?case by simp
next
  case (Cons yd yds)
  from Cons.prems(1) obtain ds where "top3 yd = with_ranks (take 3 ds)" by auto
  from add_point_grows[OF this, of c g ps] obtain c' where c': "c \<le> c'"
    and step: "add_point g (c, ps) yd = (c', ps @ [\<lparr>pt_year = yd_year yd, cumulative = c'\<rparr>])"
    by blast
  let ?ps = "ps @ [\<lparr>pt_year = yd_year yd, cumulative = c'\<rparr>]"
  have a: "\<forall>yd\<in>set yds. \<exists>ds. top3 yd = with_ranks (take 3 ds)"
    using Cons.prems(1) by simp
  have b: "sorted (map cumulative ?ps)"
    using Cons.prems(2,3) c' by (auto simp: sorted_append)
  have d: "\<forall>p\<in>set ?ps. cumulative p \<le> c'"
    using Cons.prems(3) c' by auto
  from Cons.IH[OF a b d] show ?case
    by (simp only: foldl_Cons step)
qed

lemma sort_by_year_set:
  assumes "set (engine_order yds) \<subseteq> set yds"
  shows "set (sort_by_year engine_order yds) \<subseteq> set yds"
  using assms by (simp add: sort_by_year_def)

lemma trajectories_never_decrease:
  assumes "\<And>yds. set (engine_order yds) \<subseteq> set yds"
  shows "\<forall>traj\<in>set (genreTrajectories (processedData engine_order movies)).
           sorted (map cumulative traj)"
proof (cases "movies = []")
  case True
  then show ?thesis by (simp add: processedData_def)
next
  case False
  let ?yds = "sort_by_year engine_order (map year_entry (d3_group movies line_year))"
  have "\<forall>yd\<in>set ?yds. \<exists>ds. top3 yd = with_ranks (take 3 ds)"
  proof
    fix yd assume "yd \<in> set ?yds"
    with sort_by_year_set[of engine_order, OF assms] have "yd \<in> set (map year_entry (d3_group movies line_year))"
      by blast
    then obtain yg where "yd = year_entry yg" by auto
    with year_entry_top3[of yg] show "\<exists>ds. top3 yd = with_ranks (take 3 ds)" by simp
  qed
  then have "sorted (map cumulative (trajectory_of ?yds g))" for g
    unfolding trajectory_of_def by (rule trajectory_sorted_aux) simp_all
  with False show ?thesis
    by (simp add: processedData_def Let_def)
qed

text \<open>
  The insertion sort is a sort: it returns the entries it was given, and on entries with
  valid years it gives the stable sort by ascending year.
\<close>

lemma insert_entry_set: "set (insert_entry x acc) = insert x (set acc)"
  by (induction acc) auto

lemma insertion_order_set: "set (insertion_order yds) = set yds"
proof -
  have "set (foldl (\<lambda>sorted_part x. insert_entry x sorted_part) acc yds) = set acc \<union> set yds" for acc
    by (induction yds arbitrary: acc) (simp_all add: insert_entry_set)
  then show ?thesis by (simp add: insertion_order_def)
qed

lemma compare_years_valid:
  assumes "yd_year a \<noteq> None" and "yd_year b \<noteq> None"
  shows "compare_years a b > 0 \<longleftrightarrow> the (yd_year a) > the (yd_year b)"
  using assms by (auto simp: compare_years_def split: option.splits)

lemma insert_entry_filter:
  assumes "sorted (map (\<lambda>yd. the (yd_year yd)) (rev acc))"
    and "None \<notin> yd_year ` set acc" and "yd_year x \<noteq> None"
  shows "insert_entry x acc
     = filter (\<lambda>z. the (yd_year z) > the (yd_year x)) acc @ [x]
       @ filter (\<lambda>z. the (yd_year z) \<le> the (yd_year x)) acc"
  using assms
proof (induction acc)
  case Nil
  then show ?case by simp
next
  case (Cons y ys)
  let ?f = "\<lambda>yd. the (yd_year yd)"
  from Cons.prems have y: "yd_year y \<noteq> None" and s: "sorted (map ?f (rev ys))"
    and le: "\<forall>z\<in>set ys. ?f z \<le> ?f y" and n: "None \<notin> yd_year ` set ys"
    by (auto simp: sorted_append)
  show ?case
  proof (cases "?f y > ?f x")
    case True
    then have "compare_years y x > 0"
      by (simp add: compare_years_valid[OF y Cons.prems(3)])
    then show ?thesis
      using True Cons.IH[OF s n Cons.prems(3)] by simp
  next
    case False
    then have c: "\<not> compare_years y x > 0"
      by (simp add: compare_years_valid[OF y Cons.prems(3)])
    from False le have "\<forall>z\<in>set ys. \<not> ?f z > ?f x" by fastforce
    then have "filter (\<lambda>z. ?f z > ?f x) ys = []" "filter (\<lambda>z. ?f z \<le> ?f x) ys = ys"
      by (auto simp: filter_empty_conv intro!: filter_True)
    then show ?thesis
      using False c by simp
  qed
qed

lemma insort_key_filter:
  assumes "sorted (map f zs)"
  shows "insort_key f y zs = filter (\<lambda>z. f z < f y) zs @ [y] @ filter (\<lambda>z. f y \<le> f z) zs"
  using assms
proof (induction zs)
  case Nil
  then show ?case by simp
next
  case (Cons z zs)
  show ?case
  proof (cases "f y \<le> f z")
    case True
    with Cons.prems have "\<forall>w\<in>set zs. f y \<le> f w" by auto
    then have "filter (\<lambda>z. f z < f y) zs = []" "filter (\<lambda>z. f y \<le> f z) zs = zs"
      by (auto simp: filter_empty_conv intro!: filter_True)
    with True show ?thesis by simp
  next
    case False
    with Cons show ?thesis by simp
  qed
qed

lemma insert_right_filter:
  assumes "sorted (map (\<lambda>yd. the (yd_year yd)) zs)"
    and "None \<notin> yd_year ` set zs" and "yd_year x \<noteq> None"
  shows "rev (insert_entry x (rev zs))
     = filter (\<lambda>z. the (yd_year z) \<le> the (yd_year x)) zs @ [x]
       @ filter (\<lambda>z. the (yd_year z) > the (yd_year x)) zs"
proof -
  have "insert_entry x (rev zs)
     = filter (\<lambda>z. the (yd_year z) > the (yd_year x)) (rev zs) @ [x]
       @ filter (\<lambda>z. the (yd_year z) \<le> the (yd_year x)) (rev zs)"
    using assms by (intro insert_entry_filter) simp_all
  then show ?thesis by (simp add: rev_filter)
qed

lemma insert_right_sorted:
  assumes "sorted (map (\<lambda>yd. the (yd_year yd)) zs)"
    and "None \<notin> yd_year ` set zs" and "yd_year x \<noteq> None"
  shows "sorted (map (\<lambda>yd. the (yd_year yd)) (rev (insert_entry x (rev zs))))"
proof -
  let ?f = "\<lambda>yd. the (yd_year yd)"
  have "sorted (map ?f (filter (\<lambda>z. ?f z \<le> ?f x) zs))"
    "sorted (map ?f (filter (\<lambda>z. ?f z > ?f x) zs))"
    using assms(1) by (simp_all add: sorted_map sorted_wrt_filter)
  then show ?thesis
    unfolding insert_right_filter[OF assms]
    by (auto simp: sorted_append)
qed

lemma insert_commute:
  fixes f :: "'a \<Rightarrow> int"
  shows "filter (\<lambda>z. f z \<le> f x) (filter (\<lambda>z. f z < f y) zs @ [y] @ filter (\<lambda>z. f y \<le> f z) zs) @ [x]
       @ filter (\<lambda>z. f z > f x) (filter (\<lambda>z. f z < f y) zs @ [y] @ filter (\<lambda>z. f y \<le> f z) zs)
     = filter (\<lambda>z. f z < f y) (filter (\<lambda>z. f z \<le> f x) zs @ [x] @ filter (\<lambda>z. f z > f x) zs) @ [y]
       @ filter (\<lambda>z. f y \<le> f z) (filter (\<lambda>z. f z \<le> f x) zs @ [x] @ filter (\<lambda>z. f z > f x) zs)"
proof (cases "f y \<le> f x")
  case True
  have a1: "filter (\<lambda>z. f z < f y \<and> f z \<le> f x) zs = filter (\<lambda>z. f z < f y) zs"
    using True by (intro filter_cong refl) auto
  have a2: "filter (\<lambda>z. f z \<le> f x \<and> f z < f y) zs = filter (\<lambda>z. f z < f y) zs"
    using True by (intro filter_cong refl) auto
  have a3: "filter (\<lambda>z. f z < f y \<and> f x < f z) zs = []"
    using True by (auto simp: filter_empty_conv)
  have a4: "filter (\<lambda>z. f x < f z \<and> f z < f y) zs = []"
    using True by (auto simp: filter_empty_conv)
  have a5: "filter (\<lambda>z. f y \<le> f z \<and> f x < f z) zs = filter (\<lambda>z. f x < f z) zs"
    using True by (intro filter_cong refl) auto
  have a6: "filter (\<lambda>z. f x < f z \<and> f y \<le> f z) zs = filter (\<lambda>z. f x < f z) zs"
    using True by (intro filter_cong refl) auto
  have a7: "filter (\<lambda>z. f y \<le> f z \<and> f z \<le> f x) zs = filter (\<lambda>z. f z \<le> f x \<and> f y \<le> f z) zs"
    by (intro filter_cong refl) auto
  from True have c: "\<not> f x < f y" by simp
  show ?thesis
    by (simp only: filter_append filter.simps filter_filter a1 a2 a3 a4 a5 a6 a7 True c
        if_True if_False append_Nil append_Nil2 append_assoc append_Cons not_less)
next
  case False
  then have c: "f x < f y" by simp
  have a1: "filter (\<lambda>z. f z < f y \<and> f z \<le> f x) zs = filter (\<lambda>z. f z \<le> f x) zs"
    using c by (intro filter_cong refl) auto
  have a2: "filter (\<lambda>z. f z \<le> f x \<and> f z < f y) zs = filter (\<lambda>z. f z \<le> f x) zs"
    using c by (intro filter_cong refl) auto
  have a3: "filter (\<lambda>z. f y \<le> f z \<and> f z \<le> f x) zs = []"
    using c by (auto simp: filter_empty_conv)
  have a4: "filter (\<lambda>z. f z \<le> f x \<and> f y \<le> f z) zs = []"
    using c by (auto simp: filter_empty_conv)
  have a5: "filter (\<lambda>z. f y \<le> f z \<and> f x < f z) zs = filter (\<lambda>z. f y \<le> f z) zs"
    using c by (intro filter_cong refl) auto
  have a6: "filter (\<lambda>z. f x < f z \<and> f y \<le> f z) zs = filter (\<lambda>z. f y \<le> f z) zs"
    using c by (intro filter_cong refl) auto
  have a7: "filter (\<lambda>z. f z < f y \<and> f x < f z) zs = filter (\<lambda>z. f x < f z \<and> f z < f y) zs"
    by (intro filter_cong refl) auto
  show ?thesis
    by (simp only: filter_append filter.simps filter_filter a1 a2 a3 a4 a5 a6 a7 False c
        if_True if_False append_Nil append_Nil2 append_assoc append_Cons)
qed

lemma insert_right_insort:
  assumes "sorted (map (\<lambda>yd. the (yd_year yd)) zs)"
    and "None \<notin> yd_year ` set zs" and "yd_year x \<noteq> None" and "yd_year y \<noteq> None"
  shows "rev (insert_entry x (rev (insort_key (\<lambda>yd. the (yd_year yd)) y zs)))
     = insort_key (\<lambda>yd. the (yd_year yd)) y (rev (insert_entry x (rev zs)))"
proof -
  let ?f = "\<lambda>yd. the (yd_year yd)"
  have s1: "sorted (map ?f (insort_key ?f y zs))"
    using assms(1) by (simp add: sorted_insort_key)
  have n1: "None \<notin> yd_year ` set (insort_key ?f y zs)"
    using assms(2,4) by (auto simp: set_insort_key)
  have s2: "sorted (map ?f (rev (insert_entry x (rev zs))))"
    by (rule insert_right_sorted[OF assms(1-3)])
  show ?thesis
    unfolding insert_right_filter[OF s1 n1 assms(3)] insort_key_filter[OF s2]
    unfolding insert_right_filter[OF assms(1-3)] insort_key_filter[OF assms(1)]
    by (rule insert_commute)
qed

lemma insertion_fold_insort:
  assumes "sorted (map (\<lambda>yd. the (yd_year yd)) zs)"
    and "None \<notin> yd_year ` set zs" and "None \<notin> yd_year ` set xs" and "yd_year y \<noteq> None"
  shows "rev (foldl (\<lambda>sorted_part x. insert_entry x sorted_part)
                (rev (insort_key (\<lambda>yd. the (yd_year yd)) y zs)) xs)
     = insort_key (\<lambda>yd. the (yd_year yd)) y
         (rev (foldl (\<lambda>sorted_part x. insert_entry x sorted_part) (rev zs) xs))"
  using assms(1-3)
proof (induction xs arbitrary: zs)
  case Nil
  then show ?case by simp
next
  case (Cons x xs)
  let ?f = "\<lambda>yd. the (yd_year yd)"
  let ?zs = "rev (insert_entry x (rev zs))"
  from Cons.prems(3) have x: "yd_year x \<noteq> None" and xs: "None \<notin> yd_year ` set xs"
    by auto
  have s: "sorted (map ?f ?zs)"
    by (rule insert_right_sorted[OF Cons.prems(1,2) x])
  have n: "None \<notin> yd_year ` set ?zs"
    using Cons.prems(2) x by (auto simp: insert_entry_set)
  have "insert_entry x (rev (insort_key ?f y zs)) = rev (insort_key ?f y ?zs)"
    using insert_right_insort[OF Cons.prems(1,2) x assms(4)] by (metis rev_rev_ident)
  then have "rev (foldl (\<lambda>sorted_part x. insert_entry x sorted_part) (rev (insort_key ?f y zs)) (x # xs))
      = rev (foldl (\<lambda>sorted_part x. insert_entry x sorted_part) (rev (insort_key ?f y ?zs)) xs)"
    by simp
  also have "\<dots> = insort_key ?f y (rev (foldl (\<lambda>sorted_part x. insert_entry x sorted_part) (rev ?zs) xs))"
    by (rule Cons.IH[OF s n xs])
  finally show ?case by simp
qed

lemma insertion_order_valid:
  assumes "None \<notin> set (map yd_year yds)"
  shows "insertion_order yds = sort_key (\<lambda>yd. the (yd_year yd)) yds"
  using assms
proof (induction yds)
  case Nil
  then show ?case by (simp add: insertion_order_def)
next
  case (Cons y yds)
  let ?f = "\<lambda>yd. the (yd_year yd)"
  from Cons.prems have y: "yd_year y \<noteq> None" and n: "None \<notin> yd_year ` set yds"
    by auto
  have "insertion_order (y # yds)
      = rev (foldl (\<lambda>sorted_part x. insert_entry x sorted_part) (rev (insort_key ?f y [])) yds)"
    by (simp add: insertion_order_def)
  also have "\<dots> = insort_key ?f y (rev (foldl (\<lambda>sorted_part x. insert_entry x sorted_part) (rev []) yds))"
    by (rule insertion_fold_insort[OF _ _ n y]) simp_all
  also have "\<dots> = insort_key ?f y (insertion_order yds)"
    by (simp add: insertion_order_def)
  also have "\<dots> = sort_key ?f (y # yds)"
    using Cons.IH n by simp
  finally show ?case .
qed

lemma insertion_order_example:
  "map yd_year (insertion_order
     [\<lparr>yd_year = Some 2001, top3 = []\<rparr>, \<lparr>yd_year = None, top3 = []\<rparr>,
      \<lparr>yd_year = Some 2000, top3 = []\<rparr>]) = [Some 2001, None, Some 2000]
   \<and> map yd_year (insertion_order
     [\<lparr>yd_year = Some 2001, top3 = []\<rparr>, \<lparr>yd_year = Some 2000, top3 = []\<rparr>,
      \<lparr>yd_year = None, top3 = []\<rparr>]) = [Some 2000, Some 2001, None]"
  by code_simp

lemma trajectories_never_decrease_insertion:
  "\<forall>traj\<in>set (genreTrajectories (processedData insertion_order movies)).
     sorted (map cumulative traj)"
  by (rule trajectories_never_decrease) (simp add: insertion_order_set)

lemma invalid_first_entries:
  "map year_entry (d3_group movies_invalid_first line_year)
     = [\<lparr>yd_year = None, top3 = [\<lparr>genre = ''A'', count = 1, rank = 1\<rparr>]\<rparr>,
        \<lparr>yd_year = Some 2000, top3 = [\<lparr>genre = ''B'', count = 1, rank = 1\<rparr>]\<rparr>]"
  by code_simp

lemma invalid_last_entries:
  "map year_entry (d3_group movies_invalid_last line_year)
     = [\<lparr>yd_year = Some 2000, top3 = [\<lparr>genre = ''A'', count = 1, rank = 1\<rparr>]\<rparr>,
        \<lparr>yd_year = None, top3 = [\<lparr>genre = ''A'', count = 1, rank = 1\<rparr>]\<rparr>]"
  by code_simp

lemma trajectory_of_two:
  "trajectory_of [yd1, yd2] g = snd (add_point g (add_point g (0, []) yd1) yd2)"
  by (simp add: trajectory_of_def)

text \<open>
  C1 fails in the code. \<open>Scroll.svelte\<close> filters the groups whose year is \<open>NaN\<close> out of its
  year grouping; \<open>RankedLine.svelte\<close> has no such filter. For a record with an invalid
  year and the genre A, followed by a record of the year 2000 with the genre B, the chart
  has an entry for the year \<open>NaN\<close>, placed before the year 2000, in which A has rank 1.
  The trajectory of A has the value 3 at the year 2000, although 2000 is the only year
  present and A has no award in it: the sum of the awards of A over the years up to and
  including 2000 is 0. This holds for every engine.
\<close>

theorem processedData_invalid_year:
  "years (processedData engine_order movies_invalid_first) = [None, Some 2000]
   \<and> years_present movies_invalid_first = [2000]
   \<and> chart_genres movies_invalid_first = [''A'', ''B'']
   \<and> genreTrajectories (processedData engine_order movies_invalid_first)
       = [[\<lparr>pt_year = None, cumulative = 3\<rparr>, \<lparr>pt_year = Some 2000, cumulative = 3\<rparr>],
          [\<lparr>pt_year = None, cumulative = 0\<rparr>, \<lparr>pt_year = Some 2000, cumulative = 3\<rparr>]]
   \<and> awards_upto movies_invalid_first ''A'' 2000 = 0
   \<and> awards_upto movies_invalid_first ''B'' 2000 = 3"
proof -
  have ne: "movies_invalid_first \<noteq> []" by (simp add: movies_invalid_first_def)
  have g: "chart_genres movies_invalid_first = [''A'', ''B'']" by code_simp
  have y: "years_present movies_invalid_first = [2000]" by code_simp
  have a: "awards_upto movies_invalid_first ''A'' 2000 = 0"
    "awards_upto movies_invalid_first ''B'' 2000 = 3" by code_simp+
  have s: "sort_by_year engine_order (map year_entry (d3_group movies_invalid_first line_year))
      = [\<lparr>yd_year = None, top3 = [\<lparr>genre = ''A'', count = 1, rank = 1\<rparr>]\<rparr>,
         \<lparr>yd_year = Some 2000, top3 = [\<lparr>genre = ''B'', count = 1, rank = 1\<rparr>]\<rparr>]"
    unfolding invalid_first_entries by (simp add: sort_by_year_def)
  show ?thesis
    using ne by (simp add: processedData_def Let_def s g y a trajectory_of_two)
qed

text \<open>
  C9 fails in the code, by the same missing filter. The cumulative value never decreases
  from one point of a trajectory to the next, but the points are not the chronologically
  ordered years. A record with an invalid year gives every trajectory a point at the year
  \<open>NaN\<close>, which stands where the order of the records puts it: after the year 2000 when
  the record follows one of 2000, before it when the record comes first. With such a
  record the sort no longer orders the other years: for records of 2001, of an invalid
  year and of 2000, in this order, every neighbour compares equal; an engine that sorts
  by insertion leaves the entries in this order and gives the trajectory of A the value 3
  at 2001 and the value 6 at 2000, a higher value at the earlier year.
\<close>

theorem trajectory_invalid_year:
  "years (processedData engine_order movies_invalid_last) = [Some 2000, None]
   \<and> genreTrajectories (processedData engine_order movies_invalid_last)
       = [[\<lparr>pt_year = Some 2000, cumulative = 3\<rparr>, \<lparr>pt_year = None, cumulative = 6\<rparr>]]
   \<and> map (map pt_year) (genreTrajectories (processedData engine_order movies_invalid_first))
       = [[None, Some 2000], [None, Some 2000]]
   \<and> years (processedData insertion_order movies_invalid_between) = [Some 2001, None, Some 2000]
   \<and> genreTrajectories (processedData insertion_order movies_invalid_between)
       = [[\<lparr>pt_year = Some 2001, cumulative = 3\<rparr>, \<lparr>pt_year = None, cumulative = 3\<rparr>,
           \<lparr>pt_year = Some 2000, cumulative = 6\<rparr>],
          [\<lparr>pt_year = Some 2001, cumulative = 0\<rparr>, \<lparr>pt_year = None, cumulative = 3\<rparr>,
           \<lparr>pt_year = Some 2000, cumulative = 3\<rparr>]]"
proof -
  have ne: "movies_invalid_last \<noteq> []" "movies_invalid_first \<noteq> []"
    by (simp_all add: movies_invalid_last_def movies_invalid_first_def)
  have g: "chart_genres movies_invalid_last = [''A'']"
    "chart_genres movies_invalid_first = [''A'', ''B'']" by code_simp+
  have s: "sort_by_year engine_order (map year_entry (d3_group movies_invalid_last line_year))
      = [\<lparr>yd_year = Some 2000, top3 = [\<lparr>genre = ''A'', count = 1, rank = 1\<rparr>]\<rparr>,
         \<lparr>yd_year = None, top3 = [\<lparr>genre = ''A'', count = 1, rank = 1\<rparr>]\<rparr>]"
    unfolding invalid_last_entries by (simp add: sort_by_year_def)
  have s': "sort_by_year engine_order (map year_entry (d3_group movies_invalid_first line_year))
      = [\<lparr>yd_year = None, top3 = [\<lparr>genre = ''A'', count = 1, rank = 1\<rparr>]\<rparr>,
         \<lparr>yd_year = Some 2000, top3 = [\<lparr>genre = ''B'', count = 1, rank = 1\<rparr>]\<rparr>]"
    unfolding invalid_first_entries by (simp add: sort_by_year_def)
  have l: "years (processedData engine_order movies_invalid_last) = [Some 2000, None]
   \<and> genreTrajectories (processedData engine_order movies_invalid_last)
       = [[\<lparr>pt_year = Some 2000, cumulative = 3\<rparr>, \<lparr>pt_year = None, cumulative = 6\<rparr>]]"
    using ne by (simp add: processedData_def Let_def s g trajectory_of_two)
  have f: "map (map pt_year) (genreTrajectories (processedData engine_order movies_invalid_first))
       = [[None, Some 2000], [None, Some 2000]]"
    using ne by (simp add: processedData_def Let_def s' g trajectory_of_two)
  have b: "years (processedData insertion_order movies_invalid_between) = [Some 2001, None, Some 2000]
   \<and> genreTrajectories (processedData insertion_order movies_invalid_between)
       = [[\<lparr>pt_year = Some 2001, cumulative = 3\<rparr>, \<lparr>pt_year = None, cumulative = 3\<rparr>,
           \<lparr>pt_year = Some 2000, cumulative = 6\<rparr>],
          [\<lparr>pt_year = Some 2001, cumulative = 0\<rparr>, \<lparr>pt_year = None, cumulative = 3\<rparr>,
           \<lparr>pt_year = Some 2000, cumulative = 3\<rparr>]]"
    by code_simp
  from l f b show ?thesis by simp
qed

section \<open>Entering bars wait for the updating bars\<close>

lemma nodeByKeyValue_some:
  "nodeByKeyValue nodes i m g = Some k \<Longrightarrow>
     m g = Some k \<or> (i \<le> k \<and> k < i + length nodes \<and> genre (bound (nodes ! (k - i))) = g)"
proof (induction nodes i m rule: nodeByKeyValue.induct)
  case (1 i m)
  then show ?case by simp
next
  case (2 node nodes i m)
  from "2.prems" have "nodeByKeyValue nodes (i + 1)
      (if m (genre (bound node)) \<noteq> None then m else m(genre (bound node) \<mapsto> i)) g = Some k"
    by (simp only: nodeByKeyValue.simps)
  from "2.IH"[OF this] show ?case
    by (auto split: if_splits simp: nth_Cons')
qed

lemma nodeByKeyValue_dom:
  "dom (nodeByKeyValue nodes i m) = dom m \<union> (\<lambda>node. genre (bound node)) ` set nodes"
  by (induction nodes i m rule: nodeByKeyValue.induct) (auto split: if_splits)

lemma bindData_distinct:
  "distinct (map genre data) \<Longrightarrow> bindData data m = map (slot_of m) data"
proof (induction data arbitrary: m)
  case Nil
  then show ?case by simp
next
  case (Cons d data)
  from Cons.prems have d: "distinct (map genre data)" by simp
  from Cons.prems have "genre d \<notin> genre ` set data" by simp
  then have n: "\<forall>d'\<in>set data. genre d' \<noteq> genre d" by (auto simp: image_iff)
  have "map (slot_of (m(genre d := None))) data = map (slot_of m) data"
    using n by (intro map_cong) (auto simp: slot_of_def)
  with Cons.IH[OF d] show ?case
    by (simp add: slot_of_def split: option.splits)
qed

lemma bindData_empty: "bindData data Map.empty = map (\<lambda>d. Ent) data"
  by (induction data) simp_all

lemma filter_zip_map:
  "map fst (filter (\<lambda>(d, s). P s) (zip data (map f data))) = filter (\<lambda>d. P (f d)) data"
  by (induction data) simp_all

lemma enter_data_map: "enter_data data (map f data) = filter (\<lambda>d. f d = Ent) data"
  unfolding enter_data_def by (rule filter_zip_map)

lemma update_data_map: "update_data data (map f data) = filter (\<lambda>d. f d \<noteq> Ent) data"
  unfolding update_data_def by (rule filter_zip_map)

lemma slot_of_Ent:
  "slot_of (nodeByKeyValue nodes 0 Map.empty) d = Ent
     \<longleftrightarrow> genre d \<notin> (\<lambda>node. genre (bound node)) ` set nodes"
proof -
  have "slot_of (nodeByKeyValue nodes 0 Map.empty) d = Ent
     \<longleftrightarrow> genre d \<notin> dom (nodeByKeyValue nodes 0 Map.empty)"
    by (auto simp: slot_of_def split: option.splits)
  then show ?thesis by (simp add: nodeByKeyValue_dom)
qed

lemma transitions_on_iff:
  "tr \<in> set (transitions_on sel targets now delay duration keys) \<longleftrightarrow>
     (\<exists>target\<in>set targets. \<exists>k\<in>set keys.
        tr = \<lparr>tr_genre = k, tr_selection = sel, tr_target = target,
              starts = now + delay, ends = now + delay + duration\<rparr>)"
  by (auto simp: transitions_on_def)

lemma group_keys_of:
  "map tr_genre (filter (\<lambda>tr. tr_selection tr = sel \<and> tr_target tr = BarGroup)
       (transitions_on sel' targets now delay duration keys))
   = (if sel' = sel then concat (map (\<lambda>t. if t = BarGroup then keys else []) targets) else [])"
  unfolding transitions_on_def
  by (induction targets) (auto simp: filter_empty_conv comp_def intro: filter_True)

lemma draw_entering:
  assumes "distinct (map genre data)"
  shows "entering (snd (draw now nodes data))
     = map genre (filter (\<lambda>d. genre d \<notin> (\<lambda>node. genre (bound node)) ` set nodes) data)"
  unfolding entering_def draw_def Let_def bindKey_def bindData_distinct[OF assms]
  by (simp add: group_keys_of enter_data_map slot_of_Ent)

lemma draw_updating:
  assumes "distinct (map genre data)"
  shows "updating (snd (draw now nodes data))
     = map genre (filter (\<lambda>d. genre d \<in> (\<lambda>node. genre (bound node)) ` set nodes) data)"
  unfolding updating_def draw_def Let_def bindKey_def bindData_distinct[OF assms]
  by (simp add: group_keys_of update_data_map slot_of_Ent)

lemma draw_times:
  assumes "tr \<in> set (snd (draw now nodes data))"
  shows "(tr_selection tr = Updating \<longrightarrow> starts tr = now \<and> ends tr = now + 600)
       \<and> (tr_selection tr = Entering \<longrightarrow> starts tr = now + 600)"
  using assms unfolding draw_def Let_def
  by (auto simp: transitions_on_iff)

lemma ranked_distinct: "distinct (map genre (ranked data)) = distinct (map genre data)"
  by (simp add: ranked_def sort_by_count_desc_def distinct_map_sort_key)

lemma ranked_set: "set (ranked data) = set data"
  by (simp add: ranked_def sort_by_count_desc_def)


lemma node_index:
  assumes "nodeByKeyValue nodes 0 Map.empty g = Some k"
  shows "k < length nodes \<and> genre (bound (nodes ! k)) = g"
  using nodeByKeyValue_some[OF assms] by simp

lemma enters_before_subset: "set (enters_before data slots nxt) \<subseteq> set data"
  by (induction data slots nxt rule: enters_before.induct) auto

lemma next_update_mem: "next_update slots = Some k \<Longrightarrow> Upd k \<in> set slots"
  by (induction slots rule: next_update.induct) auto

lemma enters_before_covers:
  assumes "(d, Ent) \<in> set (zip data slots)"
  shows "\<exists>nxt. d \<in> set (enters_before data slots nxt)
              \<and> (nxt = None \<or> (\<exists>k. nxt = Some k \<and> Upd k \<in> set slots))"
  using assms
proof (induction data arbitrary: slots)
  case Nil
  then show ?case by simp
next
  case (Cons d0 data)
  then obtain s0 slots' where slots: "slots = s0 # slots'"
    by (cases slots) auto
  show ?case
  proof (cases "(d, Ent) \<in> set (zip data slots')")
    case True
    from Cons.IH[OF True] obtain nxt where "d \<in> set (enters_before data slots' nxt)"
      and "nxt = None \<or> (\<exists>k. nxt = Some k \<and> Upd k \<in> set slots')"
      by blast
    then show ?thesis
      unfolding slots by (cases s0) (auto intro!: exI[of _ nxt])
  next
    case False
    with Cons.prems slots have h: "d = d0" "s0 = Ent" by auto
    have "d \<in> set (enters_before (d0 # data) (Ent # slots') (next_update slots'))"
      using h by simp
    moreover have "next_update slots' = None
        \<or> (\<exists>k. next_update slots' = Some k \<and> Upd k \<in> set (Ent # slots'))"
      using next_update_mem[of slots'] by (cases "next_update slots'") auto
    ultimately show ?thesis
      unfolding slots h by blast
  qed
qed

lemma datum_of_Some: "datum_of data slots k = Some d \<Longrightarrow> (d, Upd k) \<in> set (zip data slots)"
  by (induction data slots k rule: datum_of.induct) (auto split: if_splits)

lemma datum_of_defined: "(d, Upd k) \<in> set (zip data slots) \<Longrightarrow> datum_of data slots k \<noteq> None"
  by (induction data slots k rule: datum_of.induct) auto

lemma zip_map_mem: "(x, y) \<in> set (zip xs (map f xs)) \<longleftrightarrow> x \<in> set xs \<and> y = f x"
  by (induction xs) auto

lemma fst_draw: "fst (draw now nodes data) = children_of now nodes data (bindKey nodes data)"
  by (simp add: draw_def Let_def)

lemma children_of_mem:
  "b \<in> set (children_of now nodes data slots) \<longleftrightarrow>
     (\<exists>k<length nodes. b \<in> new_bar ` set (enters_before data slots (Some k))
                       \<or> b = joined now data slots (nodes ! k, k))
     \<or> b \<in> new_bar ` set (enters_before data slots None)"
proof -
  have z: "set (zip nodes [0..<length nodes]) = {(nodes ! k, k) | k. k < length nodes}"
    by (auto simp: set_zip)
  show ?thesis
    unfolding children_of_def by (auto simp: z)
qed

lemma children_removeAt:
  assumes "b \<in> set (children_of now nodes data slots)"
  shows "removeAt b = None \<or> removeAt b = Some (now + 300)"
  using assms unfolding children_of_mem
  by (auto simp: new_bar_def joined_def split: option.splits)

lemma children_live_keys:
  assumes "distinct (map genre data)"
  shows "(\<lambda>node. genre (bound node)) ` {b \<in> set (fst (draw now nodes data)). removeAt b = None}
           = genre ` set data"
proof -
  let ?m = "nodeByKeyValue nodes 0 Map.empty"
  let ?slots = "map (slot_of ?m) data"
  have s: "bindKey nodes data = ?slots"
    by (simp add: bindKey_def bindData_distinct[OF assms])
  have upd: "k < length nodes \<and> genre (bound (nodes ! k)) = genre d"
    if "d \<in> set data" and "slot_of ?m d = Upd k" for d k
  proof -
    from that(2) have "?m (genre d) = Some k"
      by (auto simp: slot_of_def split: option.splits)
    then show ?thesis by (rule node_index)
  qed
  show ?thesis
  proof (intro equalityI subsetI)
    fix g assume "g \<in> (\<lambda>node. genre (bound node)) ` {b \<in> set (fst (draw now nodes data)). removeAt b = None}"
    then obtain b where b: "b \<in> set (children_of now nodes data ?slots)" "removeAt b = None"
      and g: "g = genre (bound b)"
      by (auto simp: fst_draw s)
    from b(1) consider d where "d \<in> set data" "b = new_bar d"
      | k where "b = joined now data ?slots (nodes ! k, k)"
      unfolding children_of_mem using enters_before_subset by blast
    then show "g \<in> genre ` set data"
    proof cases
      case 1
      then show ?thesis by (simp add: g new_bar_def)
    next
      case 2
      with b(2) obtain d where d: "datum_of data ?slots k = Some d" and bd: "bound b = d"
        by (auto simp: joined_def split: option.splits)
      from datum_of_Some[OF d] have "d \<in> set data" by (simp add: zip_map_mem)
      then show ?thesis by (simp add: g bd)
    qed
  next
    fix g assume "g \<in> genre ` set data"
    then obtain d where d: "d \<in> set data" and g: "g = genre d" by auto
    have "\<exists>b\<in>set (children_of now nodes data ?slots). removeAt b = None \<and> genre (bound b) = g"
    proof (cases "slot_of ?m d")
      case Ent
      with d have "(d, Ent) \<in> set (zip data ?slots)" by (simp add: zip_map_mem)
      from enters_before_covers[OF this] obtain nxt where
        in_e: "d \<in> set (enters_before data ?slots nxt)"
        and nxt: "nxt = None \<or> (\<exists>k. nxt = Some k \<and> Upd k \<in> set ?slots)"
        by blast
      have "new_bar d \<in> set (children_of now nodes data ?slots)"
      proof (cases nxt)
        case None
        with in_e show ?thesis unfolding children_of_mem by blast
      next
        case (Some k)
        with nxt obtain d' where "d' \<in> set data" "slot_of ?m d' = Upd k" by auto
        from upd[OF this] have "k < length nodes" by simp
        with in_e Some show ?thesis unfolding children_of_mem by blast
      qed
      then show ?thesis
        by (intro bexI[of _ "new_bar d"]) (simp_all add: new_bar_def g)
    next
      case (Upd k)
      from upd[OF d Upd] have k: "k < length nodes" and gk: "genre (bound (nodes ! k)) = genre d"
        by simp_all
      from d Upd have "(d, Upd k) \<in> set (zip data ?slots)" by (simp add: zip_map_mem)
      from datum_of_defined[OF this] obtain d' where d': "datum_of data ?slots k = Some d'"
        by auto
      from datum_of_Some[OF d'] have "d' \<in> set data" "slot_of ?m d' = Upd k"
        by (simp_all add: zip_map_mem)
      from upd[OF this] gk have "genre d' = genre d" by simp
      moreover have "joined now data ?slots (nodes ! k, k) = \<lparr>bound = d', removeAt = None\<rparr>"
        by (simp add: joined_def d')
      moreover have "joined now data ?slots (nodes ! k, k) \<in> set (children_of now nodes data ?slots)"
        unfolding children_of_mem using k by blast
      ultimately show ?thesis
        by (intro bexI[of _ "joined now data ?slots (nodes ! k, k)"]) (simp_all add: g)
    qed
    then show "g \<in> (\<lambda>node. genre (bound node)) ` {b \<in> set (fst (draw now nodes data)). removeAt b = None}"
      by (auto simp: fst_draw s)
  qed
qed

lemma chart_keys_after:
  assumes "distinct (map genre data)" and "t0 + 300 \<le> t1"
  shows "chart_keys t1 (fst (render t0 children data)) = genre ` set data"
proof -
  let ?c = "fst (draw t0 (in_chart t0 children) (ranked data))"
  have r: "\<forall>b\<in>set ?c. removeAt b = None \<or> removeAt b = Some (t0 + 300)"
    by (auto simp: fst_draw dest: children_removeAt)
  have "set (in_chart t1 ?c) = {b \<in> set ?c. removeAt b = None}"
    using r assms(2) by (auto simp: in_chart_def split: option.splits)
  then have "chart_keys t1 ?c = (\<lambda>node. genre (bound node)) ` {b \<in> set ?c. removeAt b = None}"
    by (simp add: chart_keys_def)
  also have "\<dots> = genre ` set (ranked data)"
    by (rule children_live_keys) (simp add: ranked_distinct assms(1))
  finally show ?thesis by (simp add: render_def ranked_set)
qed

lemma render_entering:
  assumes "distinct (map genre data)"
  shows "set (entering (snd (render now children data))) = genre ` set data - chart_keys now children"
  unfolding render_def chart_keys_def
  by (auto simp: draw_entering ranked_distinct assms ranked_set)

lemma render_updating:
  assumes "distinct (map genre data)"
  shows "set (updating (snd (render now children data))) = genre ` set data \<inter> chart_keys now children"
  unfolding render_def chart_keys_def
  by (auto simp: draw_updating ranked_distinct assms ranked_set)


lemma next_update_all_Ent: "next_update (map (\<lambda>d. Ent) data) = None"
  by (induction data) simp_all

lemma enters_before_all_Ent: "enters_before data (map (\<lambda>d. Ent) data) None = data"
  by (induction data) (simp_all add: next_update_all_Ent)

lemma draw_empty_chart: "fst (draw now [] data) = map new_bar data"
  by (simp add: fst_draw bindKey_def bindData_empty children_of_def enters_before_all_Ent)

lemma chart_keys_first:
  "chart_keys now (fst (render t0 [] prev)) = genre ` set prev"
proof -
  have "fst (render t0 [] prev) = map new_bar (ranked prev)"
    by (simp add: render_def in_chart_def draw_empty_chart)
  moreover have "in_chart now (map new_bar (ranked prev)) = map new_bar (ranked prev)"
    by (simp add: in_chart_def new_bar_def)
  ultimately show ?thesis
    by (simp add: chart_keys_def ranked_set image_image new_bar_def)
qed

lemma first_render: "fst (render t0 [] data_AB) = [new_bar \<lparr>genre = ''B'', count = 10\<rparr>, new_bar \<lparr>genre = ''A'', count = 5\<rparr>]"
  by (simp add: render_def draw_def Let_def in_chart_def ranked_def sort_by_count_desc_def data_AB_def
      bindKey_def children_of_def)

lemma second_render:
  "entering (snd (render now [new_bar \<lparr>genre = ''B'', count = 10\<rparr>, new_bar \<lparr>genre = ''A'', count = 5\<rparr>] data_ABC)) = [''C'']
   \<and> updating (snd (render now [new_bar \<lparr>genre = ''B'', count = 10\<rparr>, new_bar \<lparr>genre = ''A'', count = 5\<rparr>] data_ABC)) = [''B'', ''A'']"
  by (simp add: render_def draw_def Let_def in_chart_def ranked_def sort_by_count_desc_def data_ABC_def
      bindKey_def entering_def updating_def transitions_on_def enter_data_def update_data_def
      exit_nodes_def new_bar_def)

text \<open>
  C6, as the code has it. On a render with data that lists each category once: the
  entering categories are exactly the categories of the new data that key no bar element
  still in the chart, and the updating ones those that do; every transition of an
  updating bar starts at once and ends after 600 ms, and every transition of an entering
  bar starts 600 ms after the render, when the update transitions end. When the previous
  render lies at least 300 ms back (its exit transitions are over), or was the first
  render of the chart, the bars in the chart are those of the previous data, so the
  entering categories are those of the new data that are not in the previous data. Going from A 5, B 10 (the first render) to A 5, B 10,
  C 1, at any time, C is the only entering bar and A and B are updating.
\<close>

theorem render_enter_after_update:
  assumes "distinct (map genre data)"
  shows "set (entering (snd (render now children data))) = genre ` set data - chart_keys now children
       \<and> set (updating (snd (render now children data))) = genre ` set data \<inter> chart_keys now children
       \<and> (\<forall>tr\<in>set (snd (render now children data)).
             (tr_selection tr = Updating \<longrightarrow> starts tr = now \<and> ends tr = now + 600)
           \<and> (tr_selection tr = Entering \<longrightarrow> starts tr = now + 600))
       \<and> (\<forall>t0 children0 prev. distinct (map genre prev) \<and> t0 + 300 \<le> now \<longrightarrow>
             set (entering (snd (render now (fst (render t0 children0 prev)) data)))
               = genre ` set data - genre ` set prev)
       \<and> (\<forall>t0 prev.
             set (entering (snd (render now (fst (render t0 [] prev)) data)))
               = genre ` set data - genre ` set prev)
       \<and> (\<forall>t0. entering (snd (render now (fst (render t0 [] data_AB)) data_ABC)) = [''C'']
             \<and> updating (snd (render now (fst (render t0 [] data_AB)) data_ABC)) = [''B'', ''A''])"
proof -
  have times: "\<forall>tr\<in>set (snd (render now children data)).
             (tr_selection tr = Updating \<longrightarrow> starts tr = now \<and> ends tr = now + 600)
           \<and> (tr_selection tr = Entering \<longrightarrow> starts tr = now + 600)"
    unfolding render_def using draw_times by blast
  have prev: "set (entering (snd (render now (fst (render t0 children0 prev)) data)))
               = genre ` set data - genre ` set prev"
    if "distinct (map genre prev)" and "t0 + 300 \<le> now" for t0 children0 prev
    by (simp only: render_entering[OF assms] chart_keys_after[OF that])
  have ex: "entering (snd (render now (fst (render t0 [] data_AB)) data_ABC)) = [''C'']
             \<and> updating (snd (render now (fst (render t0 [] data_AB)) data_ABC)) = [''B'', ''A'']" for t0
    unfolding first_render by (rule second_render)
  have first: "set (entering (snd (render now (fst (render t0 [] prev)) data)))
               = genre ` set data - genre ` set prev" for t0 prev
    by (simp only: render_entering[OF assms] chart_keys_first)
  from render_entering[OF assms] render_updating[OF assms] times prev first ex
  show ?thesis by blast
qed

theorem render_enter_after_update_witness:
  "distinct (map genre data_ABC)
   \<and> entering (snd (render 1000 (fst (render 0 [] data_AB)) data_ABC)) = [''C'']
   \<and> updating (snd (render 1000 (fst (render 0 [] data_AB)) data_ABC)) = [''B'', ''A'']"
proof -
  have d: "distinct (map genre data_ABC)" by (simp add: data_ABC_def)
  from render_enter_after_update [OF d, of 1000 "[]"] d show ?thesis by blast
qed

text \<open>
  C6 as stated fails when a render follows the previous one within the 300 ms of an exit
  transition. The chart shows A and B, then at 1000 ms only A (B starts to fade out and
  is removed at 1300 ms), then at 1100 ms A and B again: B is keyed in the new data and
  not in the previously rendered data, but its element is still in the chart, so B is
  not entering; it is updated, without delay. It fails as well for data that list a
  category twice: rendering A 5, A 3 twice, the second datum of A is entering again.
\<close>

theorem render_within_exit_counterexample:
  "entering (snd (render 1100 (fst (render 1000 (fst (render 0 [] data_AB)) data_A)) data_AB)) = []
   \<and> updating (snd (render 1100 (fst (render 1000 (fst (render 0 [] data_AB)) data_A)) data_AB))
       = [''B'', ''A'']
   \<and> genre ` set data_AB - genre ` set data_A = {''B''}
   \<and> entering (snd (render 1000 (fst (render 0 [] data_AA)) data_AA)) = [''A'']
   \<and> genre ` set data_AA - genre ` set data_AA = {}"
proof -
  have "entering (snd (render 1100 (fst (render 1000 (fst (render 0 [] data_AB)) data_A)) data_AB)) = []"
    by code_simp
  moreover have "updating (snd (render 1100 (fst (render 1000 (fst (render 0 [] data_AB)) data_A)) data_AB))
       = [''B'', ''A'']"
    by code_simp
  moreover have "genre ` set data_AB - genre ` set data_A = {''B''}"
    by (auto simp: data_AB_def data_A_def)
  moreover have "entering (snd (render 1000 (fst (render 0 [] data_AA)) data_AA)) = [''A'']"
    by code_simp
  ultimately show ?thesis by simp
qed

end
